theory Spec2Isabelle
  imports Main "HOL-Library.Word"
begin

section \<open>The input stream\<close>

text \<open>
  The lexer of \<^verbatim>\<open>src/lex.c\<close> reads a \<^verbatim>\<open>FILE*\<close> with \<^verbatim>\<open>fgetc\<close>, \<^verbatim>\<open>ungetc\<close> and
  \<^verbatim>\<open>feof\<close>. The stream is the characters not yet read together with the end-of-file
  indicator, which \<^verbatim>\<open>fgetc\<close> sets when it finds nothing to read and a successful
  \<^verbatim>\<open>ungetc\<close> clears. \<^verbatim>\<open>fgetc\<close> returning \<^verbatim>\<open>EOF\<close> is the value \<open>None\<close>.
\<close>

record stream =
  buf :: string
  eof :: bool

definition fgetc :: "stream \<Rightarrow> char option \<times> stream" where
  "fgetc s = (case buf s of
                [] \<Rightarrow> (None, s\<lparr>eof := True\<rparr>)
              | c # cs \<Rightarrow> (Some c, s\<lparr>buf := cs\<rparr>))"

definition ungetc :: "char option \<Rightarrow> stream \<Rightarrow> stream" where
  "ungetc c s = (case c of
                   None \<Rightarrow> s
                 | Some x \<Rightarrow> s\<lparr>buf := x # buf s, eof := False\<rparr>)"

definition feof :: "stream \<Rightarrow> bool" where
  "feof s = eof s"

text \<open>\<^verbatim>\<open>isspace\<close> in the C locale: space, and the control characters 9 to 13.\<close>

definition isspace :: "char option \<Rightarrow> bool" where
  "isspace c = (case c of
                  None \<Rightarrow> False
                | Some x \<Rightarrow> x = CHR '' '' \<or> x = CHR 0x09 \<or> x = CHR 0x0A
                            \<or> x = CHR 0x0B \<or> x = CHR 0x0C \<or> x = CHR 0x0D)"

section \<open>The line reader\<close>

text \<open>
  \<^verbatim>\<open>while (isspace(c = fgetc(fp))) ; ungetc(c, fp);\<close>
\<close>

function skip_space :: "stream \<Rightarrow> stream" where
  "skip_space s = (case fgetc s of (c, s') \<Rightarrow>
                     if isspace c then skip_space s' else ungetc c s')"
  by pat_completeness auto
termination
  by (relation "measure (\<lambda>s. length (buf s))")
     (auto simp: fgetc_def isspace_def split: list.splits option.splits)

declare skip_space.simps [simp del]

text \<open>
  \<^verbatim>\<open>while (fgetc(fp) != '\n') ;\<close> The loop has no test for the end of the stream:
  there \<^verbatim>\<open>fgetc\<close> returns \<^verbatim>\<open>EOF\<close> for ever. Not returning is the value \<open>None\<close>.
\<close>

partial_function (option) skip_comment :: "stream \<Rightarrow> stream option" where
  "skip_comment s = (case fgetc s of (c, s') \<Rightarrow>
                       if c = Some (CHR 0x0A) then Some s' else skip_comment s')"

declare skip_comment.simps [code]

text \<open>
  The body of \<^verbatim>\<open>nextline\<close>: the loop \<^verbatim>\<open>while ((c = fgetc(fp)) != EOF)\<close> that fills
  the buffer \<^verbatim>\<open>r\<close>. The buffer is the list \<open>acc\<close> of the characters stored so far;
  \<^verbatim>\<open>r\<close> is \<^verbatim>\<open>NULL\<close> exactly when nothing has been stored. The result is the buffer
  and the stream at loop exit, or \<open>None\<close> when the comment loop never ends.
  The growth of the buffer by \<^verbatim>\<open>realloc\<close> is not modelled (an allocation failure
  ends the process).
\<close>

function read_line :: "stream \<Rightarrow> string \<Rightarrow> (string \<times> stream) option" where
  "read_line s acc =
     (case fgetc s of
        (None, s') \<Rightarrow> Some (acc, s')
      | (Some c, s') \<Rightarrow>
          if c = CHR 0x0A then Some (acc, s')
          else if c = CHR ''/'' then
            (case fgetc s' of (n, s'') \<Rightarrow>
               if n = Some (CHR ''/'') then
                 (case skip_comment s'' of
                    None \<Rightarrow> None
                  | Some s3 \<Rightarrow> Some (acc, s3))
               else read_line (ungetc n s'') (acc @ [c]))
          else read_line s' (acc @ [c]))"
  by pat_completeness auto
termination
  by (relation "measure (\<lambda>(s, acc). length (buf s))")
     (auto simp: fgetc_def ungetc_def split: list.splits option.splits)

declare read_line.simps [simp del]

text \<open>The loops only consume the stream: what the termination of the reader rests on.\<close>

lemma skip_comment_len: 
  assumes "skip_comment s = Some s'"
  shows "length (buf s') < length (buf s)"
proof (rule skip_comment.raw_induct[where P = "\<lambda>s s'. length (buf s') < length (buf s)", OF _ assms])
  fix f s s'
  assume IH: "\<And>x y. f x = Some y \<Longrightarrow> length (buf y) < length (buf x)"
    and st: "(case fgetc s of (c, s') \<Rightarrow> if c = Some (CHR 0x0A) then Some s' else f s') = Some s'"
  show "length (buf s') < length (buf s)"
  proof (cases "buf s")
    case Nil
    with st IH[of "s\<lparr>eof := True\<rparr>" s'] show ?thesis by (simp add: fgetc_def)
  next
    case (Cons c cs)
    with st IH[of "s\<lparr>buf := cs\<rparr>" s'] show ?thesis
      by (auto simp: fgetc_def split: if_splits)
  qed
qed

lemma skip_space_len: "length (buf (skip_space s)) \<le> length (buf s)"
proof (induction s rule: skip_space.induct)
  case (1 s)
  show ?case
    using 1 by (subst skip_space.simps) (auto simp: fgetc_def ungetc_def isspace_def split: list.splits)
qed

lemma read_line_len:
  "read_line s acc = Some (acc', s') \<Longrightarrow>
     length (buf s') \<le> length (buf s) \<and> length acc \<le> length acc' \<and>
     length (buf s') + length acc' \<le> length (buf s) + length acc \<and>
     (acc' = [] \<longrightarrow> eof s' \<or> length (buf s') < length (buf s))"
proof (induction s acc arbitrary: acc' s' rule: read_line.induct)
  case (1 s acc)
  show ?case
  proof (cases "buf s")
    case Nil
    with "1.prems" show ?thesis
      by (subst (asm) read_line.simps) (auto simp add: fgetc_def)
  next
    case (Cons c cs)
    note sc = Cons
    have f1: "fgetc s = (Some c, s\<lparr>buf := cs\<rparr>)" by (simp add: fgetc_def Cons)
    show ?thesis
    proof (cases "c = CHR 0x0A")
      case True
      with "1.prems" f1 sc show ?thesis by (subst (asm) read_line.simps) auto
    next
      case nl: False
      show ?thesis
      proof (cases "c = CHR ''/''")
        case False
        from "1.prems" f1 nl False have "read_line (s\<lparr>buf := cs\<rparr>) (acc @ [c]) = Some (acc', s')"
          by (subst (asm) read_line.simps) simp
        from "1.IH"(2)[OF f1[symmetric] refl nl False this] sc show ?thesis by auto
      next
        case True
        obtain n s2 where f2: "fgetc (s\<lparr>buf := cs\<rparr>) = (n, s2)" by force
        have l2: "length (buf s2) \<le> length cs" using f2 by (auto simp: fgetc_def split: list.splits)
        show ?thesis
        proof (cases "n = Some (CHR ''/'')")
          case True
          with "1.prems" f1 nl \<open>c = CHR ''/''\<close> f2 
          obtain s3 where "skip_comment s2 = Some s3" "acc' = acc" "s' = s3"
            by (subst (asm) read_line.simps) (auto split: option.splits)
          with skip_comment_len[of s2 s3] l2 sc show ?thesis by auto
        next
          case False
          with "1.prems" f1 nl \<open>c = CHR ''/''\<close> f2 
          have r: "read_line (ungetc n s2) (acc @ [c]) = Some (acc', s')"
            by (subst (asm) read_line.simps) (auto)
          have "length (buf (ungetc n s2)) \<le> length cs" using f2
            by (auto simp: fgetc_def ungetc_def split: list.splits option.splits)
          with "1.IH"(1)[OF f1[symmetric] refl nl True f2[symmetric] False r] sc show ?thesis by auto
        qed
      qed
    qed
  qed
qed

text \<open>
  \<^verbatim>\<open>nextline\<close>: \<open>Some (Some line, s')\<close> is a returned line, \<open>Some (None, s')\<close> is the
  \<^verbatim>\<open>NULL\<close> return at end of stream, \<open>None\<close> is a call that never returns.
\<close>

function nextline :: "stream \<Rightarrow> (string option \<times> stream) option" where
  "nextline s =
     (if feof s then Some (None, s)
      else (case read_line (skip_space s) [] of
              None \<Rightarrow> None
            | Some (r, s') \<Rightarrow> if r \<noteq> [] then Some (Some r, s') else nextline s'))"
  by pat_completeness auto
termination
proof (relation "measure (\<lambda>s. 2 * length (buf s) + (if eof s then 0 else 1))", goal_cases)
  case 1
  show ?case by simp
next
  case (2 s x r s')
  then have "read_line (skip_space s) [] = Some ([], s')" and "\<not> eof s"
    by (simp_all add: feof_def)
  with read_line_len[of "skip_space s" "[]" "[]" s'] skip_space_len[of s]
  show ?case by auto
qed

declare nextline.simps [simp del]

lemma nextline_len:
  "nextline s = Some (Some l, s') \<Longrightarrow> length (buf s') < length (buf s)"
proof (induction s rule: nextline.induct)
  case (1 s)
  from "1.prems" have ne: "\<not> feof s"
    by (subst (asm) nextline.simps) (auto split: if_splits)
  from "1.prems" ne obtain r s1 where rl: "read_line (skip_space s) [] = Some (r, s1)"
    by (subst (asm) nextline.simps) (auto split: option.splits)
  show ?case
  proof (cases "r = []")
    case True
    with "1.prems" ne rl have "nextline s1 = Some (Some l, s')"
      by (subst (asm) nextline.simps) simp
    from "1.IH"[OF ne rl refl _ this] True
    have "length (buf s') < length (buf s1)" by simp
    with read_line_len[OF rl] skip_space_len[of s] show ?thesis by simp
  next
    case False
    with "1.prems" ne rl have "s' = s1"
      by (subst (asm) nextline.simps) simp
    with read_line_len[OF rl] False skip_space_len[of s] show ?thesis
      by (cases r) auto
  qed
qed

section \<open>The declarations of the header\<close>

text \<open>
  The enumerations and the argument union come from \<^verbatim>\<open>lex.h\<close>; their enumerators are
  the ones \<^verbatim>\<open>lex.c\<close> names.
\<close>

datatype CommandType =
  NONE | ARITHMETIC | PUSH | POP | LABEL | GOTO | IF | FUNCTION | CALL | RETURN

datatype Memory =
  ARGUMENT | LOCAL | STATIC | CONSTANT | THIS | THAT | POINTER | TEMP

datatype RType = ADD | SUB | NEG | EQ | GT | LT | AND | OR | NOT

datatype CmdArgType = ARG_NONE | ARG_CMD | ARG_MEMORY | ARG_NUM | ARG_NAME

text \<open>
  The union \<^verbatim>\<open>CmdArg\<close> with its members \<^verbatim>\<open>op\<close>, \<^verbatim>\<open>mem\<close>, \<^verbatim>\<open>num\<close> and \<^verbatim>\<open>name\<close>. A slot
  of an argument array is \<open>None\<close> as long as nothing has been stored in the memory
  that \<^verbatim>\<open>malloc\<close> returned.

  The member \<^verbatim>\<open>name\<close> is a pointer to a block that \<^verbatim>\<open>scan_stream\<close> allocates and fills:
  \<open>Name n bs\<close> is a block of \<open>n\<close> bytes, from whose start on the bytes \<open>bs\<close> have been
  written. Where \<open>bs\<close> is longer than \<open>n\<close>, its last bytes lie behind the block, in
  memory that the block does not own.
\<close>

datatype CmdArg = Op RType | Mem Memory | Num int | Name nat string

text \<open>
  What \<^verbatim>\<open>lex.c\<close> uses of the header without the header fixing it in \<^verbatim>\<open>lex.c\<close> itself
  is a parameter of the model:
  \<^item> \<open>cmd_code\<close>: the integer value of each \<^verbatim>\<open>CommandType\<close> enumerator, which the test
    \<^verbatim>\<open>cmdt & (POP | PUSH)\<close> works on;
  \<^item> \<open>arg_zero\<close>: the \<^verbatim>\<open>CmdArgType\<close> enumerator of value 0, which fills the slots of
    \<^verbatim>\<open>cmd_fmt\<close> that an initialiser leaves out;
  \<^item> \<open>indeterminate\<close>: the \<^verbatim>\<open>Memory\<close> value read from a slot that holds no
    \<^verbatim>\<open>mem\<close> member (nothing stored yet, or another member of the union).
\<close>

record header =
  cmd_code :: "CommandType \<Rightarrow> int"
  arg_zero :: CmdArgType
  indeterminate :: "CmdArg option \<Rightarrow> Memory"

section \<open>Conversion tables\<close>

definition command :: "(string \<times> CommandType) list" where
  "command =
     [(''push'', PUSH), (''pop'', POP), (''label'', LABEL), (''goto'', GOTO),
      (''if-goto'', IF), (''function'', FUNCTION), (''return'', RETURN), (''call'', CALL),
      (''add'', ARITHMETIC), (''sub'', ARITHMETIC), (''neg'', ARITHMETIC),
      (''eq'', ARITHMETIC), (''gt'', ARITHMETIC), (''lt'', ARITHMETIC),
      (''and'', ARITHMETIC), (''or'', ARITHMETIC), (''not'', ARITHMETIC)]"

definition memory :: "(string \<times> Memory) list" where
  "memory =
     [(''argument'', ARGUMENT), (''local'', LOCAL), (''static'', STATIC),
      (''constant'', CONSTANT), (''this'', THIS), (''that'', THAT),
      (''pointer'', POINTER), (''temp'', TEMP)]"

definition arithmetic :: "(string \<times> RType) list" where
  "arithmetic =
     [(''add'', ADD), (''sub'', SUB), (''neg'', NEG), (''eq'', EQ), (''gt'', GT),
      (''lt'', LT), (''and'', AND), (''or'', OR), (''not'', NOT)]"

record CommandFormat =
  nargs :: int
  arg :: "CmdArgType list"

text \<open>
  \<^verbatim>\<open>cmd_fmt\<close>: the array \<^verbatim>\<open>arg[3]\<close> of every entry, the places its initialiser does not
  give filled with the enumerator of value 0.
\<close>

definition cmd_fmt :: "header \<Rightarrow> CommandType \<Rightarrow> CommandFormat" where
  "cmd_fmt H c =
     (let z = arg_zero H in
      case c of
        NONE \<Rightarrow> \<lparr>nargs = 0, arg = [z, z, z]\<rparr>
      | ARITHMETIC \<Rightarrow> \<lparr>nargs = 1, arg = [ARG_CMD, z, z]\<rparr>
      | PUSH \<Rightarrow> \<lparr>nargs = 3, arg = [ARG_NONE, ARG_MEMORY, ARG_NUM]\<rparr>
      | POP \<Rightarrow> \<lparr>nargs = 3, arg = [ARG_NONE, ARG_MEMORY, ARG_NUM]\<rparr>
      | LABEL \<Rightarrow> \<lparr>nargs = 2, arg = [ARG_NONE, ARG_NAME, z]\<rparr>
      | GOTO \<Rightarrow> \<lparr>nargs = 2, arg = [ARG_NONE, ARG_NAME, z]\<rparr>
      | IF \<Rightarrow> \<lparr>nargs = 2, arg = [ARG_NONE, ARG_NAME, z]\<rparr>
      | FUNCTION \<Rightarrow> \<lparr>nargs = 3, arg = [ARG_NONE, ARG_NAME, ARG_NUM]\<rparr>
      | CALL \<Rightarrow> \<lparr>nargs = 3, arg = [ARG_NONE, ARG_NAME, ARG_NUM]\<rparr>
      | RETURN \<Rightarrow> \<lparr>nargs = 0, arg = [z, z, z]\<rparr>)"

text \<open>
  \<^verbatim>\<open>cmdtype\<close>: the loop runs over the whole table without a \<^verbatim>\<open>break\<close>, so the last
  matching entry decides.
\<close>

definition cmdtype :: "string \<Rightarrow> CommandType" where
  "cmdtype cmd = foldl (\<lambda>r (key, val). if cmd = key then val else r) NONE command"

section \<open>Strings, tokens and numbers\<close>

text \<open>
  A line is handed on as a C string: it ends at its first NUL character.
\<close>

definition cstr :: "string \<Rightarrow> string" where
  "cstr l = takeWhile (\<lambda>c. c \<noteq> CHR 0x00) l"

text \<open>
  The delimiters \<^verbatim>\<open>tokdelim = " \t"\<close>, and the words that the successive calls
  \<^verbatim>\<open>strtok(line, tokdelim)\<close>, \<^verbatim>\<open>strtok(NULL, tokdelim)\<close>, ... return: the maximal runs of
  characters that are not delimiters, in order. Once the list is used up every further
  call returns \<^verbatim>\<open>NULL\<close>. \<open>w\<close> is the word under construction.
\<close>

definition tokdelim :: "char \<Rightarrow> bool" where
  "tokdelim c = (c = CHR '' '' \<or> c = CHR 0x09)"

fun strtok_from :: "string \<Rightarrow> string \<Rightarrow> string list" where
  "strtok_from w [] = (if w = [] then [] else [w])"
| "strtok_from w (c # cs) =
     (if tokdelim c then (if w = [] then strtok_from [] cs else w # strtok_from [] cs)
      else strtok_from (w @ [c]) cs)"

definition strtok_all :: "string \<Rightarrow> string list" where
  "strtok_all l = strtok_from [] (cstr l)"

definition isdigit :: "char \<Rightarrow> bool" where
  "isdigit c = (48 \<le> (of_char c :: nat) \<and> (of_char c :: nat) \<le> 57)"

definition decimal :: "string \<Rightarrow> int" where
  "decimal ds = foldl (\<lambda>a c. 10 * a + (int (of_char c) - 48)) 0 ds"

definition LLONG_MAX :: int where
  "LLONG_MAX = 9223372036854775807"

definition LLONG_MIN :: int where
  "LLONG_MIN = - 9223372036854775808"

text \<open>
  \<^verbatim>\<open>strtoll(nword, &end, 10)\<close>: white space is skipped, then an optional sign and the
  longest run of decimal digits are read. The result is the value returned, whether
  \<^verbatim>\<open>end == nword\<close> (no digit was found; the value is 0 then), and whether the call
  stores \<^verbatim>\<open>ERANGE\<close> in \<^verbatim>\<open>errno\<close> (the value does not fit 64 bits and is clamped).
  \<^verbatim>\<open>long\<close> is taken to be 64 bits wide, as \<^verbatim>\<open>long long\<close> is.
\<close>

definition strtoll :: "string \<Rightarrow> int \<times> bool \<times> bool" where
  "strtoll nword =
     (let w = dropWhile (\<lambda>c. isspace (Some c)) nword;
          neg = (w \<noteq> [] \<and> hd w = CHR ''-'');
          w' = (if w \<noteq> [] \<and> (hd w = CHR ''-'' \<or> hd w = CHR ''+'') then tl w else w);
          ds = takeWhile isdigit w';
          v = (if neg then - decimal ds else decimal ds)
      in if ds = [] then (0, True, False)
         else if v > LLONG_MAX then (LLONG_MAX, False, True)
         else if v < LLONG_MIN then (LLONG_MIN, False, True)
         else (v, False, False))"

text \<open>The cast \<^verbatim>\<open>(int) num\<close> to a 32-bit \<^verbatim>\<open>int\<close>.\<close>

definition to_int :: "int \<Rightarrow> int" where
  "to_int n = sint (word_of_int n :: 32 word)"

section \<open>The scanner\<close>

text \<open>One message on \<^verbatim>\<open>stderr\<close> for each \<^verbatim>\<open>fprintf\<close> in the loop of \<^verbatim>\<open>scan_stream\<close>.\<close>

datatype diag =
    UnknownCommand string
  | MissingToken
  | WriteToConstant
  | InvalidSegment string
  | NumberParse string
  | TempRange int
  | SegmentRange int

text \<open>
  A node of the \<^verbatim>\<open>TokenList\<close>, and the list as the sequence of its nodes from the head
  \<^verbatim>\<open>r\<close> on: the new node is linked behind \<^verbatim>\<open>prev\<close>, the last one.
\<close>

record Token =
  cmd :: CommandType
  argc :: int
  argv :: "CmdArg option list"

text \<open>
  The variables of \<^verbatim>\<open>scan_stream\<close> that live across lines: the list, \<^verbatim>\<open>failure\<close>,
  whether \<^verbatim>\<open>errno\<close> holds \<^verbatim>\<open>ERANGE\<close> (nothing in \<^verbatim>\<open>scan_stream\<close> ever resets it: it
  changes where \<^verbatim>\<open>strtoll\<close> stores \<^verbatim>\<open>ERANGE\<close> and where a \<^verbatim>\<open>malloc\<close> that fails stores
  \<^verbatim>\<open>ENOMEM\<close>; the library calls that succeed are taken to leave it alone), and what
  has been written to \<^verbatim>\<open>stderr\<close>.
\<close>

record scan_state =
  tokens :: "Token list"
  failure :: bool
  erange :: bool
  stderr :: "diag list"

definition report :: "diag \<Rightarrow> scan_state \<Rightarrow> scan_state" where
  "report d st = st\<lparr>stderr := stderr st @ [d]\<rparr>"

definition fail :: "scan_state \<Rightarrow> scan_state" where
  "fail st = st\<lparr>failure := True\<rparr>"

text \<open>Reading the member \<^verbatim>\<open>mem\<close> of slot \<open>n\<close> of an argument array.\<close>

definition read_mem :: "header \<Rightarrow> CmdArg option list \<Rightarrow> nat \<Rightarrow> Memory" where
  "read_mem H av n =
     (if n < length av then
        (case av ! n of Some (Mem m) \<Rightarrow> m | x \<Rightarrow> indeterminate H x)
      else indeterminate H None)"

text \<open>The test \<^verbatim>\<open>cmdt & (POP | PUSH)\<close> on the enumerators' values.\<close>

definition pop_or_push :: "header \<Rightarrow> CommandType \<Rightarrow> bool" where
  "pop_or_push H cmdt = (and (cmd_code H cmdt) (or (cmd_code H POP) (cmd_code H PUSH)) \<noteq> 0)"

text \<open>
  \<^verbatim>\<open>case ARG_MEMORY\<close>: the table is searched up to the first match. The test for
  \<^verbatim>\<open>POP\<close> on the constant segment reads the slot whether or not a segment was found.
\<close>

definition arg_memory ::
  "header \<Rightarrow> CommandType \<Rightarrow> nat \<Rightarrow> string \<Rightarrow> scan_state \<times> CmdArg option list
     \<Rightarrow> scan_state \<times> CmdArg option list" where
  "arg_memory H cmdt argn nword x =
     (case x of (st, av) \<Rightarrow>
        let found = map_of memory nword;
            av' = (case found of None \<Rightarrow> av | Some m \<Rightarrow> av[argn := Some (Mem m)]);
            st1 = (if cmdt = POP \<and> read_mem H av' argn = CONSTANT
                   then fail (report WriteToConstant st) else st);
            st2 = (if found = None then fail (report (InvalidSegment nword) st1) else st1)
        in (st2, av'))"

text \<open>
  \<^verbatim>\<open>case ARG_NUM\<close>: \<^verbatim>\<open>errno\<close> is tested as it stands after the call; the limits are
  chosen by the slot before this one.
\<close>

definition arg_num ::
  "header \<Rightarrow> CommandType \<Rightarrow> nat \<Rightarrow> string \<Rightarrow> scan_state \<times> CmdArg option list
     \<Rightarrow> scan_state \<times> CmdArg option list" where
  "arg_num H cmdt argn nword x =
     (case x of (st, av) \<Rightarrow>
        (case strtoll nword of (num, at_start, overflow) \<Rightarrow>
           let st1 = st\<lparr>erange := erange st \<or> overflow\<rparr>;
               st2 = (if erange st1 \<or> at_start
                      then fail (report (NumberParse nword) st1) else st1);
               seg = (if argn = 0 then indeterminate H None else read_mem H av (argn - 1));
               num_is_invalid =
                 (pop_or_push H cmdt \<and>
                  (if seg = TEMP then num < 0 \<or> num > 7 else num < 0 \<or> num > 32767));
               st3 = (if num_is_invalid
                      then report (if seg = TEMP then TempRange num else SegmentRange num) st2
                      else st2);
               st4 = st3\<lparr>failure := failure st3 \<or> num_is_invalid\<rparr>
           in (st4, av[argn := Some (Num (to_int num))])))"

text \<open>
  \<^verbatim>\<open>case ARG_NAME\<close>: \<^verbatim>\<open>name = malloc(strlen(nword) * sizeof(char)); strcpy(name, nword);\<close>
  The block has room for the characters of the word and not for the NUL that ends it:
  \<^verbatim>\<open>strcpy\<close> writes the NUL into the byte behind the block.
\<close>

definition strcpy_name :: "string \<Rightarrow> CmdArg" where
  "strcpy_name nword = Name (length nword) (nword @ [CHR 0x00])"

text \<open>
  One round of \<^verbatim>\<open>for (int i = 1; i < fmt.nargs; ++i, ++argn)\<close>. The third component
  is the list of the words that \<^verbatim>\<open>strtok\<close> has still to return.
\<close>

definition scan_arg ::
  "header \<Rightarrow> CommandType \<Rightarrow> CommandFormat \<Rightarrow> nat \<Rightarrow> nat
     \<Rightarrow> scan_state \<times> CmdArg option list \<times> string list
     \<Rightarrow> scan_state \<times> CmdArg option list \<times> string list" where
  "scan_arg H cmdt fmt i argn x =
     (case x of (st, av, ws) \<Rightarrow>
        (case ws of
           [] \<Rightarrow> (fail (report MissingToken st), av, [])
         | nword # ws' \<Rightarrow>
             (case arg fmt ! i of
                ARG_MEMORY \<Rightarrow>
                  (case arg_memory H cmdt argn nword (st, av) of (st', av') \<Rightarrow> (st', av', ws'))
              | ARG_NUM \<Rightarrow>
                  (case arg_num H cmdt argn nword (st, av) of (st', av') \<Rightarrow> (st', av', ws'))
              | ARG_NAME \<Rightarrow> (st, av[argn := Some (strcpy_name nword)], ws')
              | _ \<Rightarrow> (st, av, ws'))))"

function arg_loop ::
  "header \<Rightarrow> CommandType \<Rightarrow> CommandFormat \<Rightarrow> nat \<Rightarrow> nat
     \<Rightarrow> scan_state \<times> CmdArg option list \<times> string list
     \<Rightarrow> scan_state \<times> CmdArg option list \<times> string list" where
  "arg_loop H cmdt fmt i argn x =
     (if int i < nargs fmt
      then arg_loop H cmdt fmt (i + 1) (argn + 1) (scan_arg H cmdt fmt i argn x)
      else x)"
  by pat_completeness auto
termination
  by (relation "measure (\<lambda>(H, cmdt, fmt, i, argn, x). nat (nargs fmt) - i)") auto

declare arg_loop.simps [simp del]

text \<open>
  The block \<^verbatim>\<open>if (fmt.arg[0] == ARG_NONE) ... else ...\<close> that sets \<^verbatim>\<open>argn\<close>, \<^verbatim>\<open>argc\<close>
  and the fresh array \<^verbatim>\<open>argv\<close> (a negative count gives no slot at all).
\<close>

definition init_args :: "header \<Rightarrow> CommandType \<Rightarrow> string \<Rightarrow> nat \<times> int \<times> CmdArg option list" where
  "init_args H cmdt c =
     (let fmt = cmd_fmt H cmdt in
      if arg fmt ! 0 = ARG_NONE
      then (0, nargs fmt - 1, replicate (nat (nargs fmt - 1)) None)
      else (1, nargs fmt,
            (let av = replicate (nat (nargs fmt)) None in
             case arg fmt ! 0 of
               ARG_CMD \<Rightarrow>
                 (case map_of arithmetic c of
                    None \<Rightarrow> av
                  | Some v \<Rightarrow> av[0 := Some (Op v)])
             | _ \<Rightarrow> av)))"

text \<open>
  What \<^verbatim>\<open>argv = malloc(argc * sizeof(CmdArg))\<close> does to \<^verbatim>\<open>errno\<close>: a negative \<^verbatim>\<open>argc\<close>
  becomes, as a \<^verbatim>\<open>size_t\<close>, a size that no \<^verbatim>\<open>malloc\<close> can meet; the call returns
  \<^verbatim>\<open>NULL\<close> and stores \<^verbatim>\<open>ENOMEM\<close>, so that \<^verbatim>\<open>errno\<close> no longer holds \<^verbatim>\<open>ERANGE\<close>.
\<close>

definition malloc_argv :: "int \<Rightarrow> scan_state \<Rightarrow> scan_state" where
  "malloc_argv ac st = (if ac < 0 then st\<lparr>erange := False\<rparr> else st)"

text \<open>
  The part of the loop body from \<^verbatim>\<open>fmt = cmd_fmt[cmdt]\<close> to the end of the loop over
  the arguments: the state, \<^verbatim>\<open>argc\<close> and \<^verbatim>\<open>argv\<close> as they stand before
  \<^verbatim>\<open>if (!failure)\<close>.
\<close>

definition scan_args ::
  "header \<Rightarrow> CommandType \<Rightarrow> string \<Rightarrow> string list \<Rightarrow> scan_state
     \<Rightarrow> scan_state \<times> int \<times> CmdArg option list" where
  "scan_args H cmdt c ws st =
     (case init_args H cmdt c of (argn, ac, av) \<Rightarrow>
        (case arg_loop H cmdt (cmd_fmt H cmdt) 1 argn (malloc_argv ac st, av, ws) of
           (st', av', ws') \<Rightarrow> (st', ac, av')))"

text \<open>The block \<^verbatim>\<open>if (!failure) { curr = new_token_list(); ... }\<close>.\<close>

definition append_token :: "scan_state \<Rightarrow> Token \<Rightarrow> scan_state" where
  "append_token st t = (if \<not> failure st then st\<lparr>tokens := tokens st @ [t]\<rparr> else st)"

text \<open>
  The body of \<^verbatim>\<open>while ((line = nextline(fp)))\<close> for one line. \<^verbatim>\<open>strtok\<close> returns
  \<^verbatim>\<open>NULL\<close> for a line without a word, and \<^verbatim>\<open>cmdtype\<close> hands that to \<^verbatim>\<open>strcmp\<close>:
  the process ends there in a fault, at the state it has reached.
\<close>

datatype step = Fault scan_state | Cont scan_state

definition state_of :: "step \<Rightarrow> scan_state" where
  "state_of r = (case r of Fault st \<Rightarrow> st | Cont st \<Rightarrow> st)"

definition scan_line :: "header \<Rightarrow> scan_state \<Rightarrow> string \<Rightarrow> step" where
  "scan_line H st line =
     (case strtok_all line of
        [] \<Rightarrow> Fault st
      | c # ws \<Rightarrow>
          let cmdt = cmdtype c in
          if cmdt = NONE then Cont (report (UnknownCommand c) st)
          else
            (case scan_args H cmdt c ws st of (st', ac, av') \<Rightarrow>
               Cont (append_token st' \<lparr>cmd = cmdt, argc = ac, argv = av'\<rparr>)))"

text \<open>
  The loop \<^verbatim>\<open>while ((line = nextline(fp)))\<close>: \<open>Some (Cont st)\<close> when \<^verbatim>\<open>nextline\<close> has
  returned \<^verbatim>\<open>NULL\<close>, \<open>Some (Fault st)\<close> when a line ended the process, \<open>None\<close> when a
  call of \<^verbatim>\<open>nextline\<close> does not return.
\<close>

function scan_loop :: "header \<Rightarrow> stream \<Rightarrow> scan_state \<Rightarrow> step option" where
  "scan_loop H s st =
     (case nextline s of
        None \<Rightarrow> None
      | Some (None, s') \<Rightarrow> Some (Cont st)
      | Some (Some line, s') \<Rightarrow>
          (case scan_line H st line of
             Fault st' \<Rightarrow> Some (Fault st')
           | Cont st' \<Rightarrow> scan_loop H s' st'))"
  by pat_completeness auto
termination
  by (relation "measure (\<lambda>(H, s, st). length (buf s))") (auto dest: nextline_len)

declare scan_loop.simps [simp del]

text \<open>
  What \<^verbatim>\<open>scan_stream\<close> does in the end: \<^verbatim>\<open>exit(1)\<close> when \<^verbatim>\<open>failure\<close> is set, the head
  of the list otherwise. \<open>e\<close> tells whether \<^verbatim>\<open>errno\<close> holds \<^verbatim>\<open>ERANGE\<close> at the call.
  The second component is what has been written to \<^verbatim>\<open>stderr\<close> by then, also when the
  process ends in a fault.
\<close>

datatype outcome = Returned "Token list" | Exit1 | Faulted

definition scan_init :: "bool \<Rightarrow> scan_state" where
  "scan_init e = \<lparr>tokens = [], failure = False, erange = e, stderr = []\<rparr>"

definition finish :: "step \<Rightarrow> outcome \<times> diag list" where
  "finish r = (case r of
                 Fault st \<Rightarrow> (Faulted, stderr st)
               | Cont st \<Rightarrow> (if failure st then Exit1 else Returned (tokens st), stderr st))"

definition scan_stream :: "header \<Rightarrow> bool \<Rightarrow> stream \<Rightarrow> (outcome \<times> diag list) option" where
  "scan_stream H e s = map_option finish (scan_loop H s (scan_init e))"

text \<open>
  The lines that the successive calls of \<^verbatim>\<open>nextline\<close> return up to the \<^verbatim>\<open>NULL\<close>; the
  stream that is left when the calls have returned the lines of a given list, one
  after the other; and the loop body run over a list of lines.
\<close>

function all_lines :: "stream \<Rightarrow> string list option" where
  "all_lines s =
     (case nextline s of
        None \<Rightarrow> None
      | Some (None, s') \<Rightarrow> Some []
      | Some (Some line, s') \<Rightarrow> map_option ((#) line) (all_lines s'))"
  by pat_completeness auto
termination
  by (relation "measure (\<lambda>s. length (buf s))") (auto dest: nextline_len)

declare all_lines.simps [simp del]

fun read_lines :: "stream \<Rightarrow> string list \<Rightarrow> stream option" where
  "read_lines s [] = Some s"
| "read_lines s (l # ls) =
     (case nextline s of
        Some (Some line, s') \<Rightarrow> if line = l then read_lines s' ls else None
      | _ \<Rightarrow> None)"

fun scan_lines :: "header \<Rightarrow> scan_state \<Rightarrow> string list \<Rightarrow> step" where
  "scan_lines H st [] = Cont st"
| "scan_lines H st (l # ls) =
     (case scan_line H st l of
        Fault st' \<Rightarrow> Fault st'
      | Cont st' \<Rightarrow> scan_lines H st' ls)"

section \<open>What the scan of a number does\<close>

definition is_range :: "diag \<Rightarrow> bool" where
  "is_range d = (case d of TempRange n \<Rightarrow> True | SegmentRange n \<Rightarrow> True | _ \<Rightarrow> False)"

definition in_limits :: "Memory \<Rightarrow> int \<Rightarrow> bool" where
  "in_limits m n = (if m = TEMP then 0 \<le> n \<and> n \<le> 7 else 0 \<le> n \<and> n \<le> 32767)"

lemma arg_num_closed:
  assumes "strtoll w = (num, at_start, overflow)"
    and "seg = (if n = 0 then indeterminate H None else read_mem H av (n - 1))"
  shows "arg_num H c n w (st, av) =
           (\<lparr>tokens = tokens st,
              failure = (failure st \<or> erange st \<or> overflow \<or> at_start
                         \<or> (pop_or_push H c \<and> \<not> in_limits seg num)),
              erange = (erange st \<or> overflow),
              stderr = stderr st
                @ (if erange st \<or> overflow \<or> at_start then [NumberParse w] else [])
                @ (if pop_or_push H c \<and> \<not> in_limits seg num
                   then [if seg = TEMP then TempRange num else SegmentRange num] else [])\<rparr>,
            av[n := Some (Num (to_int num))])"
  by (cases st)
     (auto simp: arg_num_def Let_def report_def fail_def in_limits_def assms(1) assms(2)[symmetric])

section \<open>The argument loop keeps what it is given\<close>

text \<open>
  A property of the state that every round of the argument loop keeps, and that the
  failing \<^verbatim>\<open>malloc\<close> keeps, holds after the arguments of a line have been scanned.
\<close>

lemma arg_loop_invariant:
  assumes "P x" and "\<And>i n y. P y \<Longrightarrow> P (scan_arg H c fmt i n y)"
  shows "P (arg_loop H c fmt i n x)"
  using assms
proof (induction H c fmt i n x rule: arg_loop.induct)
  case (1 H c fmt i n x)
  show ?case
  proof (cases "int i < nargs fmt")
    case True
    have "P (scan_arg H c fmt i n x)" by (rule "1.prems"(2)[OF "1.prems"(1)])
    from "1.IH"[OF True this "1.prems"(2)] True show ?thesis
      by (simp add: arg_loop.simps[of H c fmt i n x])
  next
    case False
    with "1.prems"(1) show ?thesis by (simp add: arg_loop.simps[of H c fmt i n x])
  qed
qed

lemma scan_args_invariant:
  assumes "P st" and "\<And>x. P x \<Longrightarrow> P (x\<lparr>erange := False\<rparr>)"
    and "\<And>i n y. P (fst y) \<Longrightarrow> P (fst (scan_arg H cmdt (cmd_fmt H cmdt) i n y))"
    and "scan_args H cmdt c ws st = (r, ac, av)"
  shows "P r"
proof -
  obtain argn ac' av0 where i: "init_args H cmdt c = (argn, ac', av0)"
    by (cases "init_args H cmdt c")
  have m: "P (malloc_argv ac' st)"
    using assms(1,2) by (simp add: malloc_argv_def)
  have "P (fst (arg_loop H cmdt (cmd_fmt H cmdt) 1 argn (malloc_argv ac' st, av0, ws)))"
  proof (rule arg_loop_invariant[where P = "\<lambda>y. P (fst y)"])
    show "P (fst (malloc_argv ac' st, av0, ws))" using m by simp
  next
    fix i n and y :: "scan_state \<times> CmdArg option list \<times> string list"
    assume "P (fst y)"
    then show "P (fst (scan_arg H cmdt (cmd_fmt H cmdt) i n y))" by (rule assms(3))
  qed
  with assms(4) i show ?thesis
    by (auto simp: scan_args_def split: prod.splits)
qed

lemma scan_line_known:
  assumes "strtok_all l = c # ws" and "cmdtype c \<noteq> NONE"
    and "scan_args H (cmdtype c) c ws st = (r, ac, av)"
  shows "scan_line H st l = Cont (append_token r \<lparr>cmd = cmdtype c, argc = ac, argv = av\<rparr>)"
  using assms by (simp add: scan_line_def)

lemma scan_line_unknown:
  assumes "strtok_all l = c # ws" and "cmdtype c = NONE"
  shows "scan_line H st l = Cont (report (UnknownCommand c) st)"
  using assms by (simp add: scan_line_def)

lemma append_token_sel:
  "stderr (append_token st t) = stderr st" "failure (append_token st t) = failure st"
  "erange (append_token st t) = erange st"
  by (simp_all add: append_token_def)

subsection \<open>Messages and the list only grow\<close>

definition grows :: "scan_state \<Rightarrow> scan_state \<Rightarrow> bool" where
  "grows st st' = (tokens st' = tokens st \<and> (failure st \<longrightarrow> failure st') \<and>
                   (\<exists>ds. stderr st' = stderr st @ ds \<and>
                         (\<forall>d \<in> set ds. case d of UnknownCommand w \<Rightarrow> False | _ \<Rightarrow> True)))"

lemma grows_refl: "grows st st"
  by (simp add: grows_def)

lemma grows_trans: "grows a b \<Longrightarrow> grows b c \<Longrightarrow> grows a c"
  by (auto simp: grows_def)

lemma scan_arg_grows: "grows (fst y) (fst (scan_arg H c fmt i n y))"
proof -
  obtain st av ws where y: "y = (st, av, ws)" by (cases y)
  show ?thesis
  proof (cases ws)
    case Nil
    with y show ?thesis by (simp add: scan_arg_def grows_def report_def fail_def)
  next
    case (Cons w ws')
    have m: "grows st (fst (arg_memory H c n w (st, av)))"
      by (simp add: arg_memory_def Let_def grows_def report_def fail_def)
    have k: "grows st (fst (arg_num H c n w (st, av)))"
      by (simp add: arg_num_def Let_def grows_def report_def fail_def split: prod.splits)
    from Cons y m k show ?thesis
      by (auto simp: scan_arg_def grows_refl split: CmdArgType.splits prod.splits)
  qed
qed

lemma scan_args_grows:
  assumes "scan_args H cmdt c ws st = (r, ac, av)"
  shows "grows st r"
proof (rule scan_args_invariant[where P = "grows st", OF _ _ _ assms])
  show "grows st st" by (rule grows_refl)
next
  fix x assume "grows st x"
  then show "grows st (x\<lparr>erange := False\<rparr>)" by (simp add: grows_def)
next
  fix i n and y :: "scan_state \<times> CmdArg option list \<times> string list"
  assume "grows st (fst y)"
  then show "grows st (fst (scan_arg H cmdt (cmd_fmt H cmdt) i n y))"
    by (rule grows_trans) (rule scan_arg_grows)
qed

section \<open>The failure flag and the messages\<close>

text \<open>
  \<^verbatim>\<open>failure\<close> is set exactly where a message other than the one for an unknown command
  is written; and \<^verbatim>\<open>errno\<close> holds \<^verbatim>\<open>ERANGE\<close> only where \<^verbatim>\<open>failure\<close> is set.
\<close>

definition is_unknown :: "diag \<Rightarrow> bool" where
  "is_unknown d = (case d of UnknownCommand w \<Rightarrow> True | _ \<Rightarrow> False)"

definition flagged :: "scan_state \<Rightarrow> bool" where
  "flagged st = (failure st = (\<exists>d \<in> set (stderr st). \<not> is_unknown d))"

definition errno_flagged :: "scan_state \<Rightarrow> bool" where
  "errno_flagged st = (erange st \<longrightarrow> failure st)"

lemma arg_memory_flagged:
  "flagged st \<Longrightarrow> arg_memory H c n w (st, av) = (st', av') \<Longrightarrow> flagged st'"
  by (auto simp: arg_memory_def Let_def flagged_def report_def fail_def is_unknown_def
           split: if_splits)

lemma arg_num_flagged:
  "flagged st \<Longrightarrow> arg_num H c n w (st, av) = (st', av') \<Longrightarrow> flagged st'"
proof -
  assume f: "flagged st" and a: "arg_num H c n w (st, av) = (st', av')"
  obtain num b o' where s: "strtoll w = (num, b, o')" by (cases "strtoll w") auto
  from a have "st' = fst (arg_num H c n w (st, av))" by simp
  also have "flagged \<dots>"
    using f by (auto simp: arg_num_closed[OF s refl] flagged_def is_unknown_def)
  finally show ?thesis .
qed

lemma scan_arg_flagged:
  "flagged (fst y) \<Longrightarrow> flagged (fst (scan_arg H c fmt i n y))"
proof -
  assume f: "flagged (fst y)"
  obtain st av ws where y: "y = (st, av, ws)" by (cases y)
  show ?thesis
  proof (cases ws)
    case Nil
    with f y show ?thesis
      by (simp add: scan_arg_def flagged_def report_def fail_def is_unknown_def)
  next
    case (Cons w ws')
    with f y show ?thesis
      by (auto simp: scan_arg_def split: CmdArgType.splits prod.splits
               dest: arg_memory_flagged arg_num_flagged)
  qed
qed

lemma scan_args_flagged:
  assumes "flagged st" and "scan_args H cmdt c ws st = (r, ac, av)"
  shows "flagged r"
proof (rule scan_args_invariant[where P = flagged, OF assms(1) _ _ assms(2)])
  fix x assume "flagged x"
  then show "flagged (x\<lparr>erange := False\<rparr>)" by (simp add: flagged_def)
next
  fix i n and y :: "scan_state \<times> CmdArg option list \<times> string list"
  assume "flagged (fst y)"
  then show "flagged (fst (scan_arg H cmdt (cmd_fmt H cmdt) i n y))"
    by (rule scan_arg_flagged)
qed

lemma scan_arg_errno_flagged:
  "errno_flagged (fst y) \<Longrightarrow> errno_flagged (fst (scan_arg H c fmt i n y))"
proof -
  assume f: "errno_flagged (fst y)"
  obtain st av ws where y: "y = (st, av, ws)" by (cases y)
  show ?thesis
  proof (cases ws)
    case Nil
    with f y show ?thesis
      by (simp add: scan_arg_def errno_flagged_def report_def fail_def)
  next
    case (Cons w ws')
    have m: "errno_flagged (fst (arg_memory H c n w (st, av)))"
      using f y by (simp add: arg_memory_def Let_def errno_flagged_def report_def fail_def)
    obtain num b o' where s: "strtoll w = (num, b, o')" by (cases "strtoll w") auto
    have k: "errno_flagged (fst (arg_num H c n w (st, av)))"
      using f y by (auto simp: arg_num_closed[OF s refl] errno_flagged_def)
    from Cons y m k f show ?thesis
      by (auto simp: scan_arg_def split: CmdArgType.splits prod.splits)
  qed
qed

lemma scan_args_errno_flagged:
  assumes "errno_flagged st" and "scan_args H cmdt c ws st = (r, ac, av)"
  shows "errno_flagged r"
proof (rule scan_args_invariant[where P = errno_flagged, OF assms(1) _ _ assms(2)])
  fix x assume "errno_flagged x"
  then show "errno_flagged (x\<lparr>erange := False\<rparr>)" by (simp add: errno_flagged_def)
next
  fix i n and y :: "scan_state \<times> CmdArg option list \<times> string list"
  assume "errno_flagged (fst y)"
  then show "errno_flagged (fst (scan_arg H cmdt (cmd_fmt H cmdt) i n y))"
    by (rule scan_arg_errno_flagged)
qed

lemma scan_line_cases:
  obtains "strtok_all l = []" and "scan_line H st l = Fault st"
  | c ws where "strtok_all l = c # ws" and "cmdtype c = NONE"
      and "scan_line H st l = Cont (report (UnknownCommand c) st)"
  | c ws r ac av where "strtok_all l = c # ws" and "cmdtype c \<noteq> NONE"
      and "scan_args H (cmdtype c) c ws st = (r, ac, av)"
      and "scan_line H st l = Cont (append_token r \<lparr>cmd = cmdtype c, argc = ac, argv = av\<rparr>)"
proof (cases "strtok_all l")
  case Nil
  then have "scan_line H st l = Fault st" by (simp add: scan_line_def)
  with Nil that(1) show ?thesis by blast
next
  case (Cons c ws)
  show ?thesis
  proof (cases "cmdtype c = NONE")
    case True
    from scan_line_unknown[OF Cons True] Cons True that(2) show ?thesis by blast
  next
    case False
    obtain r ac av where a: "scan_args H (cmdtype c) c ws st = (r, ac, av)"
      by (cases "scan_args H (cmdtype c) c ws st")
    from scan_line_known[OF Cons False a] Cons False a that(3) show ?thesis by blast
  qed
qed

lemma scan_line_invariants:
  assumes "scan_line H st l = Cont st'"
  shows "flagged st \<Longrightarrow> flagged st'" and "errno_flagged st \<Longrightarrow> errno_flagged st'"
proof -
  have "(flagged st \<longrightarrow> flagged st') \<and> (errno_flagged st \<longrightarrow> errno_flagged st')"
  proof (cases rule: scan_line_cases[of l H st])
    case 1
    with assms show ?thesis by simp
  next
    case (2 c ws)
    with assms show ?thesis
      by (auto simp: flagged_def errno_flagged_def report_def is_unknown_def)
  next
    case (3 c ws r ac av)
    from scan_args_flagged[OF _ 3(3)] scan_args_errno_flagged[OF _ 3(3)] 3(4) assms
    show ?thesis
      by (auto simp: flagged_def errno_flagged_def append_token_sel)
  qed
  then show "flagged st \<Longrightarrow> flagged st'" and "errno_flagged st \<Longrightarrow> errno_flagged st'"
    by blast+
qed

lemma scan_lines_invariants:
  assumes "scan_lines H st ls = Cont st'"
  shows "flagged st \<Longrightarrow> flagged st'" and "errno_flagged st \<Longrightarrow> errno_flagged st'"
proof -
  have "(flagged st \<longrightarrow> flagged st') \<and> (errno_flagged st \<longrightarrow> errno_flagged st')"
    using assms
  proof (induction ls arbitrary: st)
    case Nil
    then show ?case by simp
  next
    case (Cons l ls)
    from Cons.prems obtain st1 where
      a: "scan_line H st l = Cont st1" and b: "scan_lines H st1 ls = Cont st'"
      by (cases "scan_line H st l") auto
    from scan_line_invariants[OF a] Cons.IH[OF b] show ?case by blast
  qed
  then show "flagged st \<Longrightarrow> flagged st'" and "errno_flagged st \<Longrightarrow> errno_flagged st'"
    by blast+
qed

lemma scan_init_invariants: "flagged (scan_init e)" "errno_flagged (scan_init False)"
  by (simp_all add: flagged_def errno_flagged_def scan_init_def)

section \<open>The whole stream\<close>

text \<open>
  Two headers to run the scanner with: one gives every command a bit of its own, one
  numbers the commands in the order of \<^verbatim>\<open>cmd_fmt\<close>. In both \<^verbatim>\<open>ARG_NONE\<close> is the
  enumerator of value 0. And a stream that holds the given lines, each ended by a
  newline.
\<close>

definition header_bits :: header where
  "header_bits =
     \<lparr>cmd_code = (\<lambda>c. case c of
          NONE \<Rightarrow> 0 | ARITHMETIC \<Rightarrow> 1 | PUSH \<Rightarrow> 2 | POP \<Rightarrow> 4 | LABEL \<Rightarrow> 8 | GOTO \<Rightarrow> 16
        | IF \<Rightarrow> 32 | FUNCTION \<Rightarrow> 64 | CALL \<Rightarrow> 128 | RETURN \<Rightarrow> 256),
      arg_zero = ARG_NONE,
      indeterminate = (\<lambda>x. ARGUMENT)\<rparr>"

definition header_seq :: header where
  "header_seq =
     \<lparr>cmd_code = (\<lambda>c. case c of
          NONE \<Rightarrow> 0 | ARITHMETIC \<Rightarrow> 1 | PUSH \<Rightarrow> 2 | POP \<Rightarrow> 3 | LABEL \<Rightarrow> 4 | GOTO \<Rightarrow> 5
        | IF \<Rightarrow> 6 | FUNCTION \<Rightarrow> 7 | CALL \<Rightarrow> 8 | RETURN \<Rightarrow> 9),
      arg_zero = ARG_NONE,
      indeterminate = (\<lambda>x. ARGUMENT)\<rparr>"

definition file_of :: "string list \<Rightarrow> stream" where
  "file_of ls = \<lparr>buf = concat (map (\<lambda>l. l @ [CHR 0x0A]) ls), eof = False\<rparr>"

lemma scan_loop_lines:
  "all_lines s = Some ls \<Longrightarrow> scan_loop H s st = Some (scan_lines H st ls)"
proof (induction s arbitrary: ls st rule: all_lines.induct)
  case (1 s)
  show ?case
  proof (cases "nextline s")
    case None
    with "1.prems" show ?thesis by (simp add: all_lines.simps[of s])
  next
    case (Some a)
    obtain x s' where a: "a = (x, s')" by (cases a)
    show ?thesis
    proof (cases x)
      case None
      with "1.prems" Some a show ?thesis
        by (simp add: all_lines.simps[of s] scan_loop.simps[of H s])
    next
      case (Some l)
      note n = \<open>nextline s = Some a\<close>[unfolded a Some]
      from "1.prems" n obtain ls' where ls: "all_lines s' = Some ls'" "ls = l # ls'"
        by (auto simp: all_lines.simps[of s])
      show ?thesis
      proof (cases "scan_line H st l")
        case (Fault st')
        with n ls show ?thesis by (simp add: scan_loop.simps[of H s])
      next
        case (Cont st')
        from "1.IH"[OF n refl refl ls(1), of st'] Cont n ls show ?thesis
          by (simp add: scan_loop.simps[of H s st])
      qed
    qed
  qed
qed

lemma scan_loop_prefix:
  "read_lines s pre = Some s1 \<Longrightarrow> scan_lines H st pre = Cont st1 \<Longrightarrow>
     scan_loop H s st = scan_loop H s1 st1"
proof (induction pre arbitrary: s st)
  case Nil
  then show ?case by simp
next
  case (Cons l pre)
  from Cons.prems(1) obtain s' where n: "nextline s = Some (Some l, s')"
    and r: "read_lines s' pre = Some s1"
    by (auto split: option.splits prod.splits if_splits)
  from Cons.prems(2) obtain st' where a: "scan_line H st l = Cont st'"
    and b: "scan_lines H st' pre = Cont st1"
    by (cases "scan_line H st l") auto
  from Cons.IH[OF r b] n a show ?case
    by (simp add: scan_loop.simps[of H s st])
qed

lemma scan_line_no_fault:
  "strtok_all l \<noteq> [] \<Longrightarrow> \<exists>st'. scan_line H st l = Cont st'"
  by (auto simp: scan_line_def Let_def split: list.splits prod.splits)

lemma scan_lines_no_fault:
  "\<forall>l \<in> set ls. strtok_all l \<noteq> [] \<Longrightarrow> \<exists>st'. scan_lines H st ls = Cont st'"
proof (induction ls arbitrary: st)
  case Nil
  show ?case by simp
next
  case (Cons l ls)
  then obtain st1 where "scan_line H st l = Cont st1"
    using scan_line_no_fault[of l H st] by auto
  with Cons show ?case by simp
qed

text \<open>
  The lines that the reader returns are not empty, start with a character that is not
  white space and are made of characters of the stream. So in a stream without a NUL
  character every line has a command word.
\<close>

lemma skip_comment_chars:
  assumes "skip_comment s = Some s'"
  shows "set (buf s') \<subseteq> set (buf s)"
proof (rule skip_comment.raw_induct[where P = "\<lambda>s s'. set (buf s') \<subseteq> set (buf s)", OF _ assms])
  fix f s s'
  assume IH: "\<And>x y. f x = Some y \<Longrightarrow> set (buf y) \<subseteq> set (buf x)"
    and st: "(case fgetc s of (c, s') \<Rightarrow> if c = Some (CHR 0x0A) then Some s' else f s') = Some s'"
  show "set (buf s') \<subseteq> set (buf s)"
  proof (cases "buf s")
    case Nil
    with st IH[of "s\<lparr>eof := True\<rparr>" s'] show ?thesis by (simp add: fgetc_def)
  next
    case (Cons c cs)
    with st IH[of "s\<lparr>buf := cs\<rparr>" s'] show ?thesis
      by (auto simp: fgetc_def split: if_splits)
  qed
qed

lemma skip_space_chars:
  "set (buf (skip_space s)) \<subseteq> set (buf s) \<and>
   (buf (skip_space s) \<noteq> [] \<longrightarrow> \<not> isspace (Some (hd (buf (skip_space s)))))"
proof (induction s rule: skip_space.induct)
  case (1 s)
  show ?case
  proof (cases "buf s")
    case Nil
    then show ?thesis
      by (subst skip_space.simps, subst (2) skip_space.simps)
         (simp add: fgetc_def ungetc_def isspace_def)
  next
    case (Cons c cs)
    then have f: "fgetc s = (Some c, s\<lparr>buf := cs\<rparr>)" by (simp add: fgetc_def)
    show ?thesis
    proof (cases "isspace (Some c)")
      case True
      with f have e: "skip_space s = skip_space (s\<lparr>buf := cs\<rparr>)"
        by (subst skip_space.simps) simp
      from "1.IH"[OF f[symmetric] True] Cons show ?thesis
        unfolding e by auto
    next
      case False
      with f have e: "skip_space s = ungetc (Some c) (s\<lparr>buf := cs\<rparr>)"
        by (subst skip_space.simps) simp
      from False Cons show ?thesis
        unfolding e by (simp add: ungetc_def)
    qed
  qed
qed

lemma read_line_chars:
  "read_line s acc = Some (acc', s') \<Longrightarrow>
     set (buf s') \<subseteq> set (buf s) \<and>
     (\<exists>new. acc' = acc @ new \<and> set new \<subseteq> set (buf s) \<and>
            (new \<noteq> [] \<longrightarrow> hd new = hd (buf s)))"
proof (induction s acc arbitrary: acc' s' rule: read_line.induct)
  case (1 s acc)
  show ?case
  proof (cases "buf s")
    case Nil
    with "1.prems" show ?thesis
      by (subst (asm) read_line.simps) (auto simp add: fgetc_def)
  next
    case (Cons c cs)
    note sc = Cons
    have f1: "fgetc s = (Some c, s\<lparr>buf := cs\<rparr>)" by (simp add: fgetc_def Cons)
    show ?thesis
    proof (cases "c = CHR 0x0A")
      case True
      with "1.prems" f1 sc show ?thesis by (subst (asm) read_line.simps) auto
    next
      case nl: False
      show ?thesis
      proof (cases "c = CHR ''/''")
        case False
        from "1.prems" f1 nl False have "read_line (s\<lparr>buf := cs\<rparr>) (acc @ [c]) = Some (acc', s')"
          by (subst (asm) read_line.simps) simp
        from "1.IH"(2)[OF f1[symmetric] refl nl False this] obtain new where
          n: "set (buf s') \<subseteq> set cs" "acc' = (acc @ [c]) @ new" "set new \<subseteq> set cs"
          by auto
        have "acc' = acc @ (c # new) \<and> set (c # new) \<subseteq> set (buf s) \<and>
              (c # new \<noteq> [] \<longrightarrow> hd (c # new) = hd (buf s))"
          using n sc by auto
        then have "\<exists>new. acc' = acc @ new \<and> set new \<subseteq> set (buf s) \<and>
                    (new \<noteq> [] \<longrightarrow> hd new = hd (buf s))"
          by blast
        with n(1) sc show ?thesis by auto
      next
        case True
        obtain n s2 where f2: "fgetc (s\<lparr>buf := cs\<rparr>) = (n, s2)" by force
        have l2: "set (buf s2) \<subseteq> set cs" using f2 by (auto simp: fgetc_def split: list.splits)
        show ?thesis
        proof (cases "n = Some (CHR ''/'')")
          case True
          with "1.prems" f1 nl \<open>c = CHR ''/''\<close> f2 
          obtain s3 where "skip_comment s2 = Some s3" "acc' = acc" "s' = s3"
            by (subst (asm) read_line.simps) (auto split: option.splits)
          with skip_comment_chars[of s2 s3] l2 sc show ?thesis by auto
        next
          case False
          with "1.prems" f1 nl \<open>c = CHR ''/''\<close> f2 
          have r: "read_line (ungetc n s2) (acc @ [c]) = Some (acc', s')"
            by (subst (asm) read_line.simps) (auto)
          have u: "set (buf (ungetc n s2)) \<subseteq> set cs" using f2
            by (auto simp: fgetc_def ungetc_def split: list.splits option.splits)
          from "1.IH"(1)[OF f1[symmetric] refl nl True f2[symmetric] False r] obtain new where
            n: "set (buf s') \<subseteq> set (buf (ungetc n s2))" "acc' = (acc @ [c]) @ new"
               "set new \<subseteq> set (buf (ungetc n s2))"
            by auto
          from n(1,3) u have n': "set (buf s') \<subseteq> set cs" "set new \<subseteq> set cs" by blast+
          have "acc' = acc @ (c # new) \<and> set (c # new) \<subseteq> set (buf s) \<and>
                (c # new \<noteq> [] \<longrightarrow> hd (c # new) = hd (buf s))"
            using n(2) n' sc by auto
          then have "\<exists>new. acc' = acc @ new \<and> set new \<subseteq> set (buf s) \<and>
                      (new \<noteq> [] \<longrightarrow> hd new = hd (buf s))"
            by blast
          with n'(1) sc show ?thesis by auto
        qed
      qed
    qed
  qed
qed

lemma nextline_chars:
  "nextline s = Some (r, s') \<Longrightarrow>
     set (buf s') \<subseteq> set (buf s) \<and>
     (\<forall>l. r = Some l \<longrightarrow> l \<noteq> [] \<and> \<not> isspace (Some (hd l)) \<and> set l \<subseteq> set (buf s))"
proof (induction s rule: nextline.induct)
  case (1 s)
  show ?case
  proof (cases "feof s")
    case True
    with "1.prems" show ?thesis by (subst (asm) nextline.simps) auto
  next
    case ne: False
    from "1.prems" ne obtain a s1 where rl: "read_line (skip_space s) [] = Some (a, s1)"
      by (subst (asm) nextline.simps) (auto split: option.splits)
    note sk = skip_space_chars[of s]
    note rc = read_line_chars[OF rl]
    show ?thesis
    proof (cases "a = []")
      case True
      with "1.prems" ne rl have "nextline s1 = Some (r, s')"
        by (subst (asm) nextline.simps) simp
      from "1.IH"[OF ne rl refl _ this] True sk rc show ?thesis by auto
    next
      case False
      with "1.prems" ne rl have "s' = s1 \<and> r = Some a"
        by (subst (asm) nextline.simps) auto
      then have e: "s' = s1" "r = Some a" by simp_all
      from rc False have h: "hd a = hd (buf (skip_space s))" "set a \<subseteq> set (buf (skip_space s))"
        by auto
      from h(2) False have "buf (skip_space s) \<noteq> []" by auto
      with sk h e rc False show ?thesis by auto
    qed
  qed
qed

lemma all_lines_chars:
  "all_lines s = Some ls \<Longrightarrow>
     \<forall>l \<in> set ls. l \<noteq> [] \<and> \<not> isspace (Some (hd l)) \<and> set l \<subseteq> set (buf s)"
proof (induction s arbitrary: ls rule: all_lines.induct)
  case (1 s)
  show ?case
  proof (cases "nextline s")
    case None
    with "1.prems" show ?thesis by (simp add: all_lines.simps[of s])
  next
    case (Some a)
    obtain x s' where a: "a = (x, s')" by (cases a)
    show ?thesis
    proof (cases x)
      case None
      with "1.prems" Some a show ?thesis by (simp add: all_lines.simps[of s])
    next
      case (Some l)
      note n = \<open>nextline s = Some a\<close>[unfolded a Some]
      from "1.prems" n obtain ls' where ls: "all_lines s' = Some ls'" "ls = l # ls'"
        by (auto simp: all_lines.simps[of s])
      from "1.IH"[OF n refl refl ls(1)] nextline_chars[OF n] ls(2) show ?thesis
        by auto
    qed
  qed
qed

lemma strtok_from_word: "w \<noteq> [] \<Longrightarrow> strtok_from w cs \<noteq> []"
  by (induction cs arbitrary: w) auto

lemma line_has_command_word:
  assumes "l \<noteq> []" and "\<not> isspace (Some (hd l))" and "CHR 0x00 \<notin> set l"
  shows "strtok_all l \<noteq> []"
proof -
  from assms(1) obtain c cs where l: "l = c # cs" by (cases l) auto
  from assms(3) have "cstr l = l" by (auto simp: cstr_def)
  moreover from assms(2) l have "\<not> tokdelim c" by (auto simp: isspace_def tokdelim_def)
  ultimately show ?thesis
    using strtok_from_word[of "[c]" cs] l by (simp add: strtok_all_def)
qed

lemma text_lines_have_command_word:
  assumes "all_lines s = Some ls" and "CHR 0x00 \<notin> set (buf s)"
  shows "\<forall>l \<in> set ls. strtok_all l \<noteq> []"
proof
  fix l assume "l \<in> set ls"
  with all_lines_chars[OF assms(1)]
  have a: "l \<noteq> []" and b: "\<not> isspace (Some (hd l))" and c: "set l \<subseteq> set (buf s)"
    by auto
  from c assms(2) have "CHR 0x00 \<notin> set l" by blast
  with a b show "strtok_all l \<noteq> []" by (rule line_has_command_word)
qed

section \<open>Appending, line by line\<close>

lemma scan_line_step:
  assumes "scan_line H st l = Cont st'"
  shows "(failure st \<longrightarrow> failure st' \<and> tokens st' = tokens st) \<and>
         (\<exists>rest. tokens st' = tokens st @ rest \<and> (failure st' \<longrightarrow> rest = []))"
proof (cases rule: scan_line_cases[of l H st])
  case 1
  with assms show ?thesis by simp
next
  case (2 c ws)
  with assms show ?thesis by (auto simp: report_def)
next
  case (3 c ws r ac av)
  from scan_args_grows[OF 3(3)] have "tokens r = tokens st" "failure st \<longrightarrow> failure r"
    by (simp_all add: grows_def)
  with 3(4) assms show ?thesis by (auto simp: append_token_def)
qed

lemma scan_loop_tokens:
  "scan_loop H s st = Some res \<Longrightarrow>
     \<exists>rest. tokens (state_of res) = tokens st @ rest \<and> (failure st \<longrightarrow> rest = [])"
proof (induction H s st rule: scan_loop.induct)
  case (1 H s st)
  from "1.prems" obtain x s' where n: "nextline s = Some (x, s')"
    by (cases "nextline s") (auto simp: scan_loop.simps[of H s st])
  show ?case
  proof (cases x)
    case None
    with "1.prems" n show ?thesis
      by (auto simp: scan_loop.simps[of H s st] state_of_def)
  next
    case (Some l)
    show ?thesis
    proof (cases "scan_line H st l")
      case (Fault st')
      with "1.prems" n Some have "res = Fault st'"
        by (simp add: scan_loop.simps[of H s st])
      moreover from Fault have "st' = st"
        by (cases rule: scan_line_cases[of l H st]) auto
      ultimately show ?thesis by (simp add: state_of_def)
    next
      case (Cont st')
      with "1.prems" n Some have "scan_loop H s' st' = Some res"
        by (simp add: scan_loop.simps[of H s st])
      from "1.IH"[OF n[unfolded Some] refl refl Cont this] scan_line_step[OF Cont]
      show ?thesis by auto
    qed
  qed
qed

text \<open>
  C1, as the code has it. A line \<open>l\<close> with a known command word that the loop reaches:
  the reader has returned the lines \<open>pre\<close> before it, which have left the state
  \<open>st1\<close>. The scan of its arguments adds the messages \<open>m\<close>. The line appends its node
  (the command, \<^verbatim>\<open>argc\<close> and \<^verbatim>\<open>argv\<close> as the scan of the arguments has left them)
  behind the nodes of the lines before it exactly when its arguments pass validation
  (\<open>m\<close> is empty) and no failure has been recorded on a line before it (\<^verbatim>\<open>stderr\<close> holds
  nothing but messages for unknown commands); otherwise it appends nothing. The loop
  goes on with the rest of the stream, and whatever the later lines are and do, when
  the loop stops the list starts with this one; once a failure has been recorded
  nothing is appended any more.
\<close>

theorem valid_line_appended_until_first_failure:
  assumes "read_lines s pre = Some s1" and "nextline s1 = Some (Some l, s2)"
    and "scan_lines H (scan_init e) pre = Cont st1"
    and "strtok_all l = c # ws" and "cmdtype c \<noteq> NONE"
    and "scan_args H (cmdtype c) c ws st1 = (r, ac, av)"
  shows "\<exists>st2 m. stderr r = stderr st1 @ m \<and>
           scan_line H st1 l = Cont st2 \<and>
           scan_loop H s (scan_init e) = scan_loop H s2 st2 \<and>
           tokens st2 = tokens st1 @
             (if (\<forall>d \<in> set (stderr st1). is_unknown d) \<and> m = []
              then [\<lparr>cmd = cmdtype c, argc = ac, argv = av\<rparr>] else []) \<and>
           (\<forall>res. scan_loop H s2 st2 = Some res \<longrightarrow>
              (\<exists>rest. tokens (state_of res) = tokens st2 @ rest \<and>
                      (\<not> ((\<forall>d \<in> set (stderr st1). is_unknown d) \<and> m = []) \<longrightarrow> rest = [])))"
proof -
  define st2 where "st2 = append_token r \<lparr>cmd = cmdtype c, argc = ac, argv = av\<rparr>"
  from scan_args_grows[OF assms(6)] obtain m where
    g: "tokens r = tokens st1" "stderr r = stderr st1 @ m" "\<forall>d \<in> set m. \<not> is_unknown d"
    by (auto simp: grows_def is_unknown_def split: diag.splits)
  have "flagged st1"
    by (rule scan_lines_invariants(1)[OF assms(3) scan_init_invariants(1)])
  then have "flagged r" by (rule scan_args_flagged[OF _ assms(6)])
  with g(2,3) have f: "failure r = (\<not> ((\<forall>d \<in> set (stderr st1). is_unknown d) \<and> m = []))"
    by (cases m) (auto simp: flagged_def)
  have l: "scan_line H st1 l = Cont st2"
    unfolding st2_def by (rule scan_line_known[OF assms(4,5,6)])
  have "scan_loop H s (scan_init e) = scan_loop H s1 st1"
    by (rule scan_loop_prefix[OF assms(1,3)])
  also have "\<dots> = scan_loop H s2 st2"
    by (simp add: scan_loop.simps[of H s1 st1] assms(2) l)
  finally have p: "scan_loop H s (scan_init e) = scan_loop H s2 st2" .
  have t: "tokens st2 = tokens st1 @
             (if (\<forall>d \<in> set (stderr st1). is_unknown d) \<and> m = []
              then [\<lparr>cmd = cmdtype c, argc = ac, argv = av\<rparr>] else [])"
    using f g(1) by (simp add: st2_def append_token_def)
  have f2: "failure st2 = (\<not> ((\<forall>d \<in> set (stderr st1). is_unknown d) \<and> m = []))"
    using f by (simp add: st2_def append_token_sel)
  have q: "\<forall>res. scan_loop H s2 st2 = Some res \<longrightarrow>
              (\<exists>rest. tokens (state_of res) = tokens st2 @ rest \<and>
                      (\<not> ((\<forall>d \<in> set (stderr st1). is_unknown d) \<and> m = []) \<longrightarrow> rest = []))"
    using scan_loop_tokens[of H s2 st2] f2 by blast
  from g(2) l p t q show ?thesis by blast
qed

theorem valid_line_appended_until_first_failure_witness:
  "read_lines (file_of [''push local 1'', ''add'', ''pop constant 0'', ''sub''])
     [''push local 1''] = Some (file_of [''add'', ''pop constant 0'', ''sub'']) \<and>
   nextline (file_of [''add'', ''pop constant 0'', ''sub'']) =
     Some (Some ''add'', file_of [''pop constant 0'', ''sub'']) \<and>
   (\<exists>st2. scan_line header_bits
             \<lparr>tokens = [\<lparr>cmd = PUSH, argc = 2, argv = [Some (Mem LOCAL), Some (Num 1)]\<rparr>],
              failure = False, erange = False, stderr = []\<rparr> ''add'' = Cont st2 \<and>
           scan_loop header_bits (file_of [''push local 1'', ''add'', ''pop constant 0'', ''sub''])
             (scan_init False) =
           scan_loop header_bits (file_of [''pop constant 0'', ''sub'']) st2 \<and>
           tokens st2 = [\<lparr>cmd = PUSH, argc = 2, argv = [Some (Mem LOCAL), Some (Num 1)]\<rparr>,
                         \<lparr>cmd = ARITHMETIC, argc = 1, argv = [Some (Op ADD)]\<rparr>])"
proof -
  define st1 where "st1 = \<lparr>tokens = [\<lparr>cmd = PUSH, argc = 2, argv = [Some (Mem LOCAL), Some (Num 1)]\<rparr>],
                           failure = False, erange = False, stderr = []\<rparr>"
  have a: "read_lines (file_of [''push local 1'', ''add'', ''pop constant 0'', ''sub''])
             [''push local 1''] = Some (file_of [''add'', ''pop constant 0'', ''sub''])"
    by code_simp
  have b: "nextline (file_of [''add'', ''pop constant 0'', ''sub'']) =
             Some (Some ''add'', file_of [''pop constant 0'', ''sub''])"
    by code_simp
  have c: "scan_lines header_bits (scan_init False) [''push local 1''] = Cont st1"
    unfolding st1_def by code_simp
  have d: "strtok_all ''add'' = ''add'' # []"
    by code_simp
  have e: "cmdtype ''add'' \<noteq> NONE"
    by code_simp
  have f: "scan_args header_bits (cmdtype ''add'') ''add'' [] st1 = (st1, 1, [Some (Op ADD)])"
    unfolding st1_def by code_simp
  from valid_line_appended_until_first_failure[OF a b c d e f]
  have "\<exists>st2. scan_line header_bits st1 ''add'' = Cont st2 \<and>
           scan_loop header_bits (file_of [''push local 1'', ''add'', ''pop constant 0'', ''sub''])
             (scan_init False) =
           scan_loop header_bits (file_of [''pop constant 0'', ''sub'']) st2 \<and>
           tokens st2 = tokens st1 @ [\<lparr>cmd = cmdtype ''add'', argc = 1, argv = [Some (Op ADD)]\<rparr>]"
    by (auto simp: st1_def)
  moreover have "cmdtype ''add'' = ARITHMETIC" by code_simp
  ultimately show ?thesis using a b by (simp add: st1_def)
qed

text \<open>
  C1 as the claim states it fails: the valid line \<^verbatim>\<open>add\<close> is appended when it stands
  alone, and is not appended behind a line that recorded a failure.
\<close>

theorem valid_line_after_failure_not_appended:
  "scan_loop header_bits (file_of [''pop constant 1'', ''add'']) (scan_init False) =
     Some (Cont \<lparr>tokens = [], failure = True, erange = False, stderr = [WriteToConstant]\<rparr>) \<and>
   scan_loop header_bits (file_of [''add'']) (scan_init False) =
     Some (Cont \<lparr>tokens = [\<lparr>cmd = ARITHMETIC, argc = 1, argv = [Some (Op ADD)]\<rparr>],
                 failure = False, erange = False, stderr = []\<rparr>)"
  by code_simp

section \<open>One line at a time\<close>

text \<open>
  The loop body reads \<^verbatim>\<open>failure\<close> only at its end and never reads what it has
  written to \<^verbatim>\<open>stderr\<close>: a line run in a state \<open>st\<close> does what it does in the fresh
  state with the same \<^verbatim>\<open>errno\<close>, put behind \<open>st\<close>.
\<close>

definition join :: "scan_state \<Rightarrow> scan_state \<Rightarrow> scan_state" where
  "join a r = \<lparr>tokens = tokens a @ tokens r, failure = (failure a \<or> failure r),
               erange = erange r, stderr = stderr a @ stderr r\<rparr>"

lemma join_report: "report d (join a r) = join a (report d r)"
  by (simp add: join_def report_def)

lemma join_fail: "fail (join a r) = join a (fail r)"
  by (simp add: join_def fail_def)

lemma join_sel: "erange (join a r) = erange r" "failure (join a r) = (failure a \<or> failure r)"
  by (simp_all add: join_def)

lemma arg_memory_join:
  "arg_memory H c n w (join a r, av) =
     (case arg_memory H c n w (r, av) of (r', av') \<Rightarrow> (join a r', av'))"
  by (simp add: arg_memory_def Let_def join_report join_fail)

lemma arg_num_join:
  "arg_num H c n w (join a r, av) =
     (case arg_num H c n w (r, av) of (r', av') \<Rightarrow> (join a r', av'))"
  by (cases r; cases a) (simp add: arg_num_def Let_def join_def report_def fail_def split: prod.splits)

lemma scan_arg_join:
  "scan_arg H c fmt i n (join a r, av, ws) =
     (case scan_arg H c fmt i n (r, av, ws) of (r', av', ws') \<Rightarrow> (join a r', av', ws'))"
  by (simp add: scan_arg_def arg_memory_join arg_num_join join_report join_fail
           split: list.splits CmdArgType.splits prod.splits)

lemma arg_loop_join:
  "arg_loop H c fmt i n (join a r, av, ws) =
     (case arg_loop H c fmt i n (r, av, ws) of (r', av', ws') \<Rightarrow> (join a r', av', ws'))"
proof (induction H c fmt i n "(r, av, ws)" arbitrary: r av ws rule: arg_loop.induct)
  case (1 H c fmt i n)
  show ?case
  proof (cases "int i < nargs fmt")
    case False
    then show ?thesis by (simp add: arg_loop.simps[of H c fmt i n])
  next
    case True
    obtain r1 av1 ws1 where s: "scan_arg H c fmt i n (r, av, ws) = (r1, av1, ws1)"
      by (cases "scan_arg H c fmt i n (r, av, ws)")
    from "1.hyps"[OF True s] True s show ?thesis
      by (simp add: arg_loop.simps[of H c fmt i n] scan_arg_join)
  qed
qed


definition merge :: "scan_state \<Rightarrow> scan_state \<Rightarrow> scan_state" where
  "merge st r = \<lparr>tokens = tokens st @ (if failure st then [] else tokens r),
                 failure = (failure st \<or> failure r),
                 erange = erange r, stderr = stderr st @ stderr r\<rparr>"

lemma join_init: "join st (scan_init (erange st)) = st"
  by (simp add: join_def scan_init_def)

lemma malloc_argv_join: "malloc_argv ac (join a r) = join a (malloc_argv ac r)"
  by (simp add: malloc_argv_def join_def)

lemma scan_args_join:
  "scan_args H cmdt c ws (join a r) =
     (case scan_args H cmdt c ws r of (r', ac, av) \<Rightarrow> (join a r', ac, av))"
  by (simp add: scan_args_def malloc_argv_join arg_loop_join split: prod.splits)

lemma scan_line_frame:
  "scan_line H st line =
     (case scan_line H (scan_init (erange st)) line of
        Fault r \<Rightarrow> Fault (merge st r)
      | Cont r \<Rightarrow> Cont (merge st r))"
proof (cases rule: scan_line_cases[of line H "scan_init (erange st)"])
  case 1
  then show ?thesis by (simp add: scan_line_def merge_def scan_init_def)
next
  case (2 c ws)
  then show ?thesis
    by (simp add: scan_line_unknown[OF 2(1,2)] merge_def report_def scan_init_def)
next
  case (3 c ws r ac av)
  from scan_args_grows[OF 3(3)] have t: "tokens r = []"
    by (simp add: grows_def scan_init_def)
  have "scan_args H (cmdtype c) c ws (join st (scan_init (erange st))) = (join st r, ac, av)"
    by (simp add: scan_args_join 3(3))
  then have "scan_args H (cmdtype c) c ws st = (join st r, ac, av)"
    by (simp add: join_init)
  from scan_line_known[OF 3(1,2) this] 3(4) t show ?thesis
    by (simp add: join_def merge_def append_token_def)
qed

section \<open>A comment at the end of the stream\<close>

lemma skip_comment_newline:
  assumes "skip_comment s = Some s'"
  shows "CHR 0x0A \<in> set (buf s)"
proof (rule skip_comment.raw_induct[where P = "\<lambda>s s'. CHR 0x0A \<in> set (buf s)", OF _ assms])
  fix f s s'
  assume IH: "\<And>x y. f x = Some y \<Longrightarrow> CHR 0x0A \<in> set (buf x)"
    and st: "(case fgetc s of (c, s') \<Rightarrow> if c = Some (CHR 0x0A) then Some s' else f s') = Some s'"
  show "CHR 0x0A \<in> set (buf s)"
  proof (cases "buf s")
    case Nil
    with st IH[of "s\<lparr>eof := True\<rparr>" s'] show ?thesis by (simp add: fgetc_def)
  next
    case (Cons c cs)
    with st IH[of "s\<lparr>buf := cs\<rparr>" s'] show ?thesis
      by (auto simp: fgetc_def split: if_splits)
  qed
qed

lemma skip_comment_diverges: "CHR 0x0A \<notin> set (buf s) \<Longrightarrow> skip_comment s = None"
  using skip_comment_newline[of s] by (cases "skip_comment s") auto

text \<open>
  C8: the reader does not return on a stream that ends inside a comment: the comment
  loop waits for a newline that never comes. The claim asks for the comment to be
  skipped and the end of the stream to be signalled.
\<close>

theorem nextline_unterminated_comment:
  "nextline \<lparr>buf = ''// end'', eof = False\<rparr> = None"
proof -
  have "skip_comment \<lparr>buf = '' end'', eof = False\<rparr> = None"
    by (rule skip_comment_diverges) simp
  then show ?thesis
    by (simp add: nextline.simps skip_space.simps read_line.simps fgetc_def ungetc_def
                  isspace_def feof_def)
qed

lemma nextline_comment_at_end: "nextline \<lparr>buf = ''// c'', eof = False\<rparr> = None"
proof -
  have "skip_comment \<lparr>buf = '' c'', eof = False\<rparr> = None"
    by (rule skip_comment_diverges) simp
  then show ?thesis
    by (simp add: nextline.simps skip_space.simps read_line.simps fgetc_def ungetc_def
                  isspace_def feof_def)
qed

lemma scan_loop_hangs_behind_line:
  assumes "nextline s = Some (Some l, \<lparr>buf = ''// c'', eof = False\<rparr>)"
    and "strtok_all l \<noteq> []"
  shows "scan_loop H s st = None"
proof -
  from scan_line_no_fault[OF assms(2), of H st] obtain st' where
    "scan_line H st l = Cont st'" by blast
  with assms(1) nextline_comment_at_end show ?thesis
    by (simp add: scan_loop.simps[of H s st]
                  scan_loop.simps[of H "\<lparr>buf = ''// c'', eof = False\<rparr>" st'])
qed

section \<open>Failure and exit\<close>

text \<open>
  When the reader gets through the whole stream and the stream holds no NUL, the loop
  comes to its end in the state that the loop body leaves on the lines of the stream,
  and \<^verbatim>\<open>scan_stream\<close> leaves with \<^verbatim>\<open>exit(1)\<close> exactly when that state holds a message
  for a missing argument, an invalid segment, a write to the constant segment, a
  number that does not parse or a number out of range; otherwise it returns the list.
\<close>

lemma exit_iff_failure_recorded:
  assumes "all_lines s = Some ls" and "CHR 0x00 \<notin> set (buf s)"
  shows "\<exists>st. scan_lines H (scan_init e) ls = Cont st \<and>
              scan_stream H e s =
                Some (if \<exists>d \<in> set (stderr st). \<not> is_unknown d then Exit1
                      else Returned (tokens st), stderr st)"
proof -
  from scan_lines_no_fault[OF text_lines_have_command_word[OF assms]] obtain st
    where st: "scan_lines H (scan_init e) ls = Cont st" by blast
  have "flagged st" by (rule scan_lines_invariants(1)[OF st scan_init_invariants(1)])
  then have "failure st = (\<exists>d \<in> set (stderr st). \<not> is_unknown d)"
    by (simp add: flagged_def)
  moreover have "scan_stream H e s = Some (finish (Cont st))"
    by (simp add: scan_stream_def scan_loop_lines[OF assms(1)] st)
  ultimately have "scan_stream H e s =
      Some (if \<exists>d \<in> set (stderr st). \<not> is_unknown d then Exit1 else Returned (tokens st),
            stderr st)"
    by (simp add: finish_def)
  with st show ?thesis by blast
qed

lemma exit_iff_failure_recorded_example:
  "scan_stream header_bits False (file_of [''push local 3'', ''pop constant 1'', ''add'']) =
     Some (Exit1, [WriteToConstant]) \<and>
   scan_stream header_bits False (file_of [''push local 3'', ''bar'', ''add'']) =
     Some (Returned [\<lparr>cmd = PUSH, argc = 2, argv = [Some (Mem LOCAL), Some (Num 3)]\<rparr>,
                     \<lparr>cmd = ARITHMETIC, argc = 1, argv = [Some (Op ADD)]\<rparr>],
           [UnknownCommand ''bar''])"
  by code_simp

text \<open>A line that starts with a NUL ends the process in a fault.\<close>

lemma nul_line_faults:
  "scan_stream H e \<lparr>buf = [CHR 0x00, CHR 0x0A], eof = False\<rparr> = Some (Faulted, [])"
proof -
  have n: "nextline \<lparr>buf = [CHR 0x00, CHR 0x0A], eof = False\<rparr> =
             Some (Some [CHR 0x00], \<lparr>buf = [], eof = False\<rparr>)"
    by code_simp
  have "strtok_all [CHR 0x00] = []" by code_simp
  then have "scan_line H (scan_init e) [CHR 0x00] = Fault (scan_init e)"
    by (simp add: scan_line_def)
  with n have "scan_loop H \<lparr>buf = [CHR 0x00, CHR 0x0A], eof = False\<rparr> (scan_init e) =
                 Some (Fault (scan_init e))"
    by (subst scan_loop.simps) simp
  then show ?thesis
    by (simp add: scan_stream_def finish_def scan_init_def)
qed

text \<open>
  C5: the stream holds the valid line \<^verbatim>\<open>add\<close> and then a comment that runs into the
  end of the stream. No line records a failure, and \<^verbatim>\<open>scan_stream\<close> does not return
  the list: it never returns, since the reader does not come back from the comment.
\<close>

theorem scan_stream_hangs_without_failure:
  "scan_stream H e \<lparr>buf = ''add'' @ [CHR 0x0A] @ ''// c'', eof = False\<rparr> = None"
proof -
  have n: "nextline \<lparr>buf = ''add'' @ [CHR 0x0A] @ ''// c'', eof = False\<rparr> =
             Some (Some ''add'', \<lparr>buf = ''// c'', eof = False\<rparr>)"
    by code_simp
  have "strtok_all ''add'' \<noteq> []" by code_simp
  from scan_loop_hangs_behind_line[OF n this] show ?thesis
    by (simp add: scan_stream_def)
qed

section \<open>The rounds of the argument loop\<close>

lemma cmdtype_simps:
  "cmdtype ''push'' = PUSH" "cmdtype ''pop'' = POP" "cmdtype ''label'' = LABEL"
  "cmdtype ''goto'' = GOTO" "cmdtype ''if-goto'' = IF" "cmdtype ''function'' = FUNCTION"
  "cmdtype ''return'' = RETURN" "cmdtype ''call'' = CALL"
  by (simp_all add: cmdtype_def command_def)

lemma arg_loop_3:
  "nargs fmt = 3 \<Longrightarrow>
     arg_loop H c fmt (Suc 0) n x =
       scan_arg H c fmt (Suc (Suc 0)) (Suc n) (scan_arg H c fmt (Suc 0) n x)"
  by (simp add: arg_loop.simps[of H c fmt "Suc 0"] arg_loop.simps[of H c fmt "Suc (Suc 0)"]
                arg_loop.simps[of H c fmt "Suc (Suc (Suc 0))"])

lemma arg_loop_2:
  "nargs fmt = 2 \<Longrightarrow> arg_loop H c fmt (Suc 0) n x = scan_arg H c fmt (Suc 0) n x"
  by (simp add: arg_loop.simps[of H c fmt "Suc 0"] arg_loop.simps[of H c fmt "Suc (Suc 0)"])

lemma arg_loop_0:
  "nargs fmt \<le> 1 \<Longrightarrow> arg_loop H c fmt (Suc 0) n x = x"
  by (simp add: arg_loop.simps[of H c fmt "Suc 0"])

section \<open>Writing to the constant segment\<close>

definition adds_no_wtc :: "scan_state \<Rightarrow> scan_state \<Rightarrow> bool" where
  "adds_no_wtc st st' = (\<exists>ds. stderr st' = stderr st @ ds \<and> WriteToConstant \<notin> set ds)"

lemma scan_arg_no_wtc:
  assumes "c \<noteq> POP" and "adds_no_wtc st (fst y)"
  shows "adds_no_wtc st (fst (scan_arg H c fmt i n y))"
proof -
  obtain st1 av ws where y: "y = (st1, av, ws)" by (cases y)
  from assms(2) y obtain ds where ds: "stderr st1 = stderr st @ ds" "WriteToConstant \<notin> set ds"
    by (auto simp: adds_no_wtc_def)
  show ?thesis
  proof (cases ws)
    case Nil
    with y ds show ?thesis by (simp add: scan_arg_def adds_no_wtc_def report_def fail_def)
  next
    case (Cons w ws')
    have m: "adds_no_wtc st (fst (arg_memory H c n w (st1, av)))"
      using ds assms(1) by (simp add: arg_memory_def Let_def adds_no_wtc_def report_def fail_def)
    have k: "adds_no_wtc st (fst (arg_num H c n w (st1, av)))"
      using ds by (simp add: arg_num_def Let_def adds_no_wtc_def report_def fail_def split: prod.splits)
    from Cons y m k assms(2) show ?thesis
      by (auto simp: scan_arg_def split: CmdArgType.splits prod.splits)
  qed
qed

lemma scan_line_no_wtc:
  assumes "strtok_all line = c # ws" and "cmdtype c \<noteq> POP"
  shows "\<exists>st'. scan_line H st line = Cont st' \<and> adds_no_wtc st st'"
proof (cases "cmdtype c = NONE")
  case True
  with assms show ?thesis
    by (simp add: scan_line_def adds_no_wtc_def report_def)
next
  case False
  obtain r ac av where a: "scan_args H (cmdtype c) c ws st = (r, ac, av)"
    by (cases "scan_args H (cmdtype c) c ws st")
  have "adds_no_wtc st r"
  proof (rule scan_args_invariant[where P = "adds_no_wtc st", OF _ _ _ a])
    show "adds_no_wtc st st" by (simp add: adds_no_wtc_def)
  next
    fix x assume "adds_no_wtc st x"
    then show "adds_no_wtc st (x\<lparr>erange := False\<rparr>)" by (simp add: adds_no_wtc_def)
  next
    fix i n and y :: "scan_state \<times> CmdArg option list \<times> string list"
    assume "adds_no_wtc st (fst y)"
    then show "adds_no_wtc st (fst (scan_arg H (cmdtype c) (cmd_fmt H (cmdtype c)) i n y))"
      by (rule scan_arg_no_wtc[OF assms(2)])
  qed
  then have "adds_no_wtc st (append_token r \<lparr>cmd = cmdtype c, argc = ac, argv = av\<rparr>)"
    by (simp add: adds_no_wtc_def append_token_sel)
  with scan_line_known[OF assms(1) False a] show ?thesis by simp
qed

lemma pop_constant_line:
  assumes "strtok_all line = ''pop'' # ''constant'' # ws"
  shows "\<exists>st' ds. scan_line H st line = Cont st' \<and> failure st' \<and> tokens st' = tokens st \<and>
                   stderr st' = stderr st @ WriteToConstant # ds"
proof -
  let ?fmt = "cmd_fmt H POP"
  have n: "nargs ?fmt = 3" and a: "arg ?fmt = [ARG_NONE, ARG_MEMORY, ARG_NUM]"
    by (simp_all add: cmd_fmt_def)
  have i: "init_args H POP ''pop'' = (0, 2, [None, None])"
    by (simp add: init_args_def cmd_fmt_def numeral_2_eq_2)
  define st1 where "st1 = fail (report WriteToConstant st)"
  have s1: "scan_arg H POP ?fmt (Suc 0) 0 (st, [None, None], ''constant'' # ws)
              = (st1, [Some (Mem CONSTANT), None], ws)"
    by (simp add: scan_arg_def a arg_memory_def memory_def read_mem_def st1_def)
  obtain st2 av2 ws2 where
    s2: "scan_arg H POP ?fmt (Suc (Suc 0)) (Suc 0) (st1, [Some (Mem CONSTANT), None], ws)
           = (st2, av2, ws2)"
    by (cases "scan_arg H POP ?fmt (Suc (Suc 0)) (Suc 0) (st1, [Some (Mem CONSTANT), None], ws)")
  have "grows st1 st2"
    using scan_arg_grows[of "(st1, [Some (Mem CONSTANT), None], ws)" H POP ?fmt "Suc (Suc 0)" "Suc 0"]
    by (simp add: s2)
  then obtain ds where g: "tokens st2 = tokens st" "failure st2"
      "stderr st2 = stderr st @ WriteToConstant # ds"
    by (auto simp: grows_def st1_def fail_def report_def)
  have "scan_line H st line = Cont (append_token st2 \<lparr>cmd = POP, argc = 2, argv = av2\<rparr>)"
    using assms
    by (simp add: scan_line_def scan_args_def malloc_argv_def cmdtype_simps i
                  arg_loop_3[OF n] s1 s2)
  with g show ?thesis by (simp add: append_token_def)
qed

text \<open>
  C3: a line \<^verbatim>\<open>pop constant ...\<close> writes the message for a write to the constant
  segment, whatever follows the segment word; \<^verbatim>\<open>failure\<close> is set and no node is
  appended. A \<^verbatim>\<open>push\<close> line never writes that message.
\<close>

theorem pop_constant_is_refused:
  "(strtok_all line = ''pop'' # ''constant'' # ws \<longrightarrow>
      (\<exists>st' ds. scan_line H st line = Cont st' \<and> failure st' \<and> tokens st' = tokens st \<and>
                 stderr st' = stderr st @ WriteToConstant # ds)) \<and>
   (strtok_all line = ''push'' # ws \<longrightarrow>
      (\<exists>st' ds. scan_line H st line = Cont st' \<and> stderr st' = stderr st @ ds \<and>
                 WriteToConstant \<notin> set ds))"
proof (intro conjI impI)
  assume "strtok_all line = ''pop'' # ''constant'' # ws"
  then show "\<exists>st' ds. scan_line H st line = Cont st' \<and> failure st' \<and> tokens st' = tokens st \<and>
                 stderr st' = stderr st @ WriteToConstant # ds"
    by (rule pop_constant_line)
next
  assume "strtok_all line = ''push'' # ws"
  from scan_line_no_wtc[OF this, of H st]
  show "\<exists>st' ds. scan_line H st line = Cont st' \<and> stderr st' = stderr st @ ds \<and>
                 WriteToConstant \<notin> set ds"
    by (auto simp: cmdtype_simps adds_no_wtc_def)
qed

theorem pop_constant_is_refused_witness:
  "strtok_all ''pop constant 5'' = ''pop'' # ''constant'' # [''5''] \<and>
   (\<exists>st' ds. scan_line header_bits (scan_init False) ''pop constant 5'' = Cont st' \<and>
              failure st' \<and> tokens st' = tokens (scan_init False) \<and>
              stderr st' = stderr (scan_init False) @ WriteToConstant # ds) \<and>
   strtok_all ''push constant 5'' = ''push'' # [''constant'', ''5''] \<and>
   (\<exists>st' ds. scan_line header_bits (scan_init False) ''push constant 5'' = Cont st' \<and>
              stderr st' = stderr (scan_init False) @ ds \<and> WriteToConstant \<notin> set ds)"
proof -
  have a: "strtok_all ''pop constant 5'' = ''pop'' # ''constant'' # [''5'']"
    by code_simp
  have b: "strtok_all ''push constant 5'' = ''push'' # [''constant'', ''5'']"
    by code_simp
  from pop_constant_is_refused[of "''pop constant 5''" "[''5'']" header_bits "scan_init False"]
       pop_constant_is_refused[of "''push constant 5''" "[''constant'', ''5'']" header_bits "scan_init False"]
       a b
  show ?thesis by blast
qed

section \<open>The limits of a numeric operand\<close>

lemma and_or_self: "and (x::int) (or y x) = x" "and (x::int) (or x y) = x"
  by (auto simp add: bit_eq_iff bit_and_iff bit_or_iff)

lemma pop_or_push_iff:
  "pop_or_push H PUSH = (cmd_code H PUSH \<noteq> 0)" "pop_or_push H POP = (cmd_code H POP \<noteq> 0)"
  by (simp_all add: pop_or_push_def and_or_self)

lemma push_pop_line:
  assumes "strtok_all line = c # seg # w # ws"
    and "cmdtype c = t" and "t = PUSH \<or> t = POP"
    and "map_of memory seg = Some m"
  shows "scan_line H st line =
           (case arg_num H t (Suc 0) w
                   (if t = POP \<and> m = CONSTANT then fail (report WriteToConstant st) else st,
                    [Some (Mem m), None]) of
              (st2, av2) \<Rightarrow> Cont (append_token st2 \<lparr>cmd = t, argc = 2, argv = av2\<rparr>))"
proof -
  let ?fmt = "cmd_fmt H t"
  from assms(3) have n: "nargs ?fmt = 3" and a: "arg ?fmt = [ARG_NONE, ARG_MEMORY, ARG_NUM]"
    by (auto simp: cmd_fmt_def)
  from assms(3) have i: "init_args H t c = (0, 2, [None, None])"
    by (auto simp: init_args_def cmd_fmt_def numeral_2_eq_2)
  have s1: "scan_arg H t ?fmt (Suc 0) 0 (st, [None, None], seg # w # ws)
              = (if t = POP \<and> m = CONSTANT then fail (report WriteToConstant st) else st,
                 [Some (Mem m), None], w # ws)"
    by (simp add: scan_arg_def a arg_memory_def assms(4) read_mem_def)
  have s2: "scan_arg H t ?fmt (Suc (Suc 0)) (Suc 0) (x, av, w # ws)
              = (case arg_num H t (Suc 0) w (x, av) of (st', av') \<Rightarrow> (st', av', ws))" for x av
    by (simp add: scan_arg_def a)
  from assms(3) have "t \<noteq> NONE" by auto
  with assms(1,2) show ?thesis
    by (simp add: scan_line_def scan_args_def malloc_argv_def i arg_loop_3[OF n] s1 s2
             split: prod.splits)
qed


lemma to_int_small: "0 \<le> n \<Longrightarrow> n \<le> 32767 \<Longrightarrow> to_int n = n"
  by (simp add: to_int_def sint_sbintrunc' signed_take_bit_int_eq_self)

text \<open>
  C2: on a \<^verbatim>\<open>push\<close> or \<^verbatim>\<open>pop\<close> line whose segment word is in the table, a range message
  is written exactly when the number read is outside 0..7 for \<^verbatim>\<open>temp\<close> and outside
  0..32767 for the other segments; then \<^verbatim>\<open>failure\<close> is set and nothing is appended.
  Within the limits, with no failure so far and a number that parses, the line
  appends its node (unless it is a \<^verbatim>\<open>pop\<close> on \<^verbatim>\<open>constant\<close>). The header has to give
  \<^verbatim>\<open>PUSH\<close> and \<^verbatim>\<open>POP\<close> values other than 0 for the test \<^verbatim>\<open>cmdt & (POP | PUSH)\<close> to
  hold of them.
\<close>

theorem push_pop_operand_range:
  assumes "cmd_code H PUSH \<noteq> 0" and "cmd_code H POP \<noteq> 0"
    and "strtok_all line = c # seg # w # ws"
    and "c = ''push'' \<or> c = ''pop''"
    and "map_of memory seg = Some m"
    and "strtoll w = (num, at_start, overflow)"
  shows "\<exists>st' ds. scan_line H st line = Cont st' \<and> stderr st' = stderr st @ ds \<and>
           ((\<exists>d \<in> set ds. is_range d) = (\<not> in_limits m num)) \<and>
           (\<not> in_limits m num \<longrightarrow> failure st' \<and> tokens st' = tokens st) \<and>
           (in_limits m num \<and> \<not> failure st \<and> \<not> erange st \<and> \<not> at_start \<and> \<not> overflow \<and>
            \<not> (c = ''pop'' \<and> m = CONSTANT) \<longrightarrow>
              ds = [] \<and> \<not> failure st' \<and>
              tokens st' = tokens st @
                [\<lparr>cmd = cmdtype c, argc = 2, argv = [Some (Mem m), Some (Num num)]\<rparr>])"
proof -
  define t where "t = cmdtype c"
  from assms(4) have t: "t = PUSH \<or> t = POP" and tc: "(t = POP) = (c = ''pop'')"
    by (auto simp: t_def cmdtype_simps)
  from t assms(1,2) have pp: "pop_or_push H t" by (auto simp: pop_or_push_iff)
  define st1 where "st1 = (if t = POP \<and> m = CONSTANT then fail (report WriteToConstant st) else st)"
  have seg: "m = (if Suc 0 = 0 then indeterminate H None
                  else read_mem H [Some (Mem m), None] (Suc 0 - 1))"
    by (simp add: read_mem_def)
  note cl = arg_num_closed[OF assms(6) seg, of t st1]
  have l: "scan_line H st line =
             Cont (append_token (fst (arg_num H t (Suc 0) w (st1, [Some (Mem m), None])))
                     \<lparr>cmd = t, argc = 2, argv = [Some (Mem m), Some (Num (to_int num))]\<rparr>)"
    using push_pop_line[OF assms(3) t_def[symmetric] t assms(5), of H st]
    by (simp add: st1_def[symmetric] cl)
  define D0 where "D0 = (if t = POP \<and> m = CONSTANT then [WriteToConstant] else [])"
  have s1: "stderr st1 = stderr st @ D0" "tokens st1 = tokens st"
      "failure st1 = (failure st \<or> (t = POP \<and> m = CONSTANT))" "erange st1 = erange st"
    by (auto simp: st1_def D0_def report_def fail_def)
  define ds where "ds = D0
           @ (if erange st \<or> overflow \<or> at_start then [NumberParse w] else [])
           @ (if \<not> in_limits m num
              then [if m = TEMP then TempRange num else SegmentRange num] else [])"
  let ?st' = "append_token (fst (arg_num H t (Suc 0) w (st1, [Some (Mem m), None])))
                     \<lparr>cmd = t, argc = 2, argv = [Some (Mem m), Some (Num (to_int num))]\<rparr>"
  have e: "stderr ?st' = stderr st @ ds"
    by (simp add: cl append_token_def s1 ds_def pp)
  have r: "(\<exists>d \<in> set ds. is_range d) = (\<not> in_limits m num)"
    by (auto simp: ds_def D0_def is_range_def)
  have f: "\<not> in_limits m num \<longrightarrow> failure ?st' \<and> tokens ?st' = tokens st"
    by (simp add: cl append_token_def s1 pp)
  have g: "in_limits m num \<and> \<not> failure st \<and> \<not> erange st \<and> \<not> at_start \<and> \<not> overflow \<and>
            \<not> (c = ''pop'' \<and> m = CONSTANT) \<longrightarrow>
              ds = [] \<and> \<not> failure ?st' \<and>
              tokens ?st' = tokens st @
                [\<lparr>cmd = t, argc = 2, argv = [Some (Mem m), Some (Num num)]\<rparr>]"
  proof (intro impI)
    assume a: "in_limits m num \<and> \<not> failure st \<and> \<not> erange st \<and> \<not> at_start \<and> \<not> overflow \<and>
            \<not> (c = ''pop'' \<and> m = CONSTANT)"
    then have "0 \<le> num" "num \<le> 32767" by (auto simp: in_limits_def split: if_splits)
    then have "to_int num = num" by (rule to_int_small)
    with a tc show "ds = [] \<and> \<not> failure ?st' \<and>
              tokens ?st' = tokens st @
                [\<lparr>cmd = t, argc = 2, argv = [Some (Mem m), Some (Num num)]\<rparr>]"
      by (simp add: cl append_token_def s1 pp ds_def D0_def)
  qed
  from l e r f g show ?thesis unfolding t_def by blast
qed


theorem push_pop_operand_range_witness:
  "(\<exists>st' ds. scan_line header_bits (scan_init False) ''push constant 32768'' = Cont st' \<and>
              stderr st' = ds \<and> (\<exists>d \<in> set ds. is_range d) \<and> failure st' \<and> tokens st' = []) \<and>
   (\<exists>st' ds. scan_line header_bits (scan_init False) ''pop temp 8'' = Cont st' \<and>
              stderr st' = ds \<and> (\<exists>d \<in> set ds. is_range d) \<and> failure st' \<and> tokens st' = []) \<and>
   (\<exists>st'. scan_line header_bits (scan_init False) ''push constant 32767'' = Cont st' \<and>
           stderr st' = [] \<and> \<not> failure st' \<and>
           tokens st' = [\<lparr>cmd = PUSH, argc = 2, argv = [Some (Mem CONSTANT), Some (Num 32767)]\<rparr>]) \<and>
   (\<exists>st'. scan_line header_bits (scan_init False) ''pop temp 7'' = Cont st' \<and>
           stderr st' = [] \<and> \<not> failure st' \<and>
           tokens st' = [\<lparr>cmd = POP, argc = 2, argv = [Some (Mem TEMP), Some (Num 7)]\<rparr>])"
proof -
  have h: "cmd_code header_bits PUSH \<noteq> 0" "cmd_code header_bits POP \<noteq> 0"
    by (simp_all add: header_bits_def)
  note T = push_pop_operand_range[OF h, where st = "scan_init False"]
  have m: "map_of memory ''constant'' = Some CONSTANT" "map_of memory ''temp'' = Some TEMP"
    by (simp_all add: memory_def)
  have k1: "strtok_all ''push constant 32768'' = ''push'' # ''constant'' # ''32768'' # []"
    by code_simp
  have n1: "strtoll ''32768'' = (32768, False, False)"
    by code_simp
  have k2: "strtok_all ''pop temp 8'' = ''pop'' # ''temp'' # ''8'' # []"
    by code_simp
  have n2: "strtoll ''8'' = (8, False, False)"
    by code_simp
  have k3: "strtok_all ''push constant 32767'' = ''push'' # ''constant'' # ''32767'' # []"
    by code_simp
  have n3: "strtoll ''32767'' = (32767, False, False)"
    by code_simp
  have k4: "strtok_all ''pop temp 7'' = ''pop'' # ''temp'' # ''7'' # []"
    by code_simp
  have n4: "strtoll ''7'' = (7, False, False)"
    by code_simp
  have e1: "\<exists>st' ds. scan_line header_bits (scan_init False) ''push constant 32768'' = Cont st' \<and>
              stderr st' = ds \<and> (\<exists>d \<in> set ds. is_range d) \<and> failure st' \<and> tokens st' = []"
    using T[OF k1 _ m(1) n1] by (auto simp: in_limits_def scan_init_def)
  have e2: "\<exists>st' ds. scan_line header_bits (scan_init False) ''pop temp 8'' = Cont st' \<and>
              stderr st' = ds \<and> (\<exists>d \<in> set ds. is_range d) \<and> failure st' \<and> tokens st' = []"
    using T[OF k2 _ m(2) n2] by (auto simp: in_limits_def scan_init_def)
  have e3: "\<exists>st'. scan_line header_bits (scan_init False) ''push constant 32767'' = Cont st' \<and>
           stderr st' = [] \<and> \<not> failure st' \<and>
           tokens st' = [\<lparr>cmd = PUSH, argc = 2, argv = [Some (Mem CONSTANT), Some (Num 32767)]\<rparr>]"
    using T[OF k3 _ m(1) n3] by (auto simp: in_limits_def scan_init_def cmdtype_simps)
  have e4: "\<exists>st'. scan_line header_bits (scan_init False) ''pop temp 7'' = Cont st' \<and>
           stderr st' = [] \<and> \<not> failure st' \<and>
           tokens st' = [\<lparr>cmd = POP, argc = 2, argv = [Some (Mem TEMP), Some (Num 7)]\<rparr>]"
    using T[OF k4 _ m(2) n4] by (auto simp: in_limits_def scan_init_def cmdtype_simps)
  from e1 e2 e3 e4 show ?thesis by blast
qed

section \<open>Function and call lines\<close>








text \<open>
  With consecutive values for the commands, \<^verbatim>\<open>FUNCTION\<close> shares bits with
  \<^verbatim>\<open>POP | PUSH\<close>, and the limits are applied to a \<^verbatim>\<open>function\<close> line as well.
\<close>

lemma consecutive_values_check_function:
  "pop_or_push header_seq FUNCTION \<and>
   scan_line header_seq (scan_init False) ''function f 40000'' =
     Cont \<lparr>tokens = [], failure = True, erange = False, stderr = [SegmentRange 40000]\<rparr>"
  by code_simp

section \<open>The shape of the stored arguments, and the state of errno\<close>

lemma name_line:
  assumes "strtok_all line = c # nm # ws"
    and "cmdtype c = t" and "t = LABEL \<or> t = GOTO \<or> t = IF"
  shows "scan_line H st line =
           Cont (append_token st
                   \<lparr>cmd = t, argc = 1, argv = [Some (Name (length nm) (nm @ [CHR 0x00]))]\<rparr>)"
proof -
  let ?fmt = "cmd_fmt H t"
  from assms(3) have n: "nargs ?fmt = 2" and a: "arg ?fmt ! 0 = ARG_NONE" "arg ?fmt ! Suc 0 = ARG_NAME"
    by (auto simp: cmd_fmt_def Let_def)
  from assms(3) have i: "init_args H t c = (0, 1, [None])"
    by (auto simp: init_args_def cmd_fmt_def Let_def)
  have s1: "scan_arg H t ?fmt (Suc 0) 0 (st, [None], nm # ws)
              = (st, [Some (Name (length nm) (nm @ [CHR 0x00]))], ws)"
    by (simp add: scan_arg_def a strcpy_name_def)
  from assms(3) have "t \<noteq> NONE" by auto
  with assms(1,2) show ?thesis
    by (simp add: scan_line_def scan_args_def malloc_argv_def i arg_loop_2[OF n] s1)
qed

lemma arithmetic_cmdtype: "map_of arithmetic c = Some v \<Longrightarrow> cmdtype c = ARITHMETIC"
  by (auto simp: arithmetic_def cmdtype_def command_def split: if_splits)

lemma arithmetic_line:
  assumes "strtok_all line = c # ws" and "map_of arithmetic c = Some v"
  shows "scan_line H st line =
           Cont (append_token st \<lparr>cmd = ARITHMETIC, argc = 1, argv = [Some (Op v)]\<rparr>)"
proof -
  let ?fmt = "cmd_fmt H ARITHMETIC"
  have n: "nargs ?fmt \<le> 1" by (simp add: cmd_fmt_def Let_def)
  have i: "init_args H ARITHMETIC c = (1, 1, [Some (Op v)])"
    by (simp add: init_args_def cmd_fmt_def Let_def assms(2))
  from assms show ?thesis
    by (simp add: scan_line_def scan_args_def malloc_argv_def arithmetic_cmdtype i
                  arg_loop_0[OF n])
qed

lemma return_line:
  assumes "strtok_all line = ''return'' # ws"
  shows "scan_line H st line =
           Cont (append_token (malloc_argv (if arg_zero H = ARG_NONE then - 1 else 0) st)
                   \<lparr>cmd = RETURN, argc = (if arg_zero H = ARG_NONE then - 1 else 0), argv = []\<rparr>)"
proof -
  let ?fmt = "cmd_fmt H RETURN"
  have n: "nargs ?fmt \<le> 1" by (simp add: cmd_fmt_def Let_def)
  have "map_of arithmetic ''return'' = None" by (simp add: arithmetic_def)
  then have i: "init_args H RETURN ''return'' =
             (if arg_zero H = ARG_NONE then 0 else 1,
              if arg_zero H = ARG_NONE then - 1 else 0, [])"
    by (simp add: init_args_def cmd_fmt_def Let_def split: CmdArgType.splits)
  from assms show ?thesis
    by (simp add: scan_line_def scan_args_def cmdtype_simps i arg_loop_0[OF n])
qed

text \<open>
  C7: with \<^verbatim>\<open>ARG_NONE\<close> the enumerator of value 0, a \<^verbatim>\<open>return\<close> line is stored with
  the argument count \<open>-1\<close>, not 0: its entry of \<^verbatim>\<open>cmd_fmt\<close> gives \<^verbatim>\<open>nargs\<close> as 0 where
  the entries of the other commands count the command word, and \<^verbatim>\<open>argc\<close> is
  \<^verbatim>\<open>nargs - 1\<close> when the first slot is \<^verbatim>\<open>ARG_NONE\<close>. (The \<^verbatim>\<open>malloc\<close> of that count fails
  and leaves \<^verbatim>\<open>ENOMEM\<close> in \<^verbatim>\<open>errno\<close>.)
\<close>

theorem return_stores_argc_minus_one:
  "scan_line H (scan_init e) ''return'' =
     Cont \<lparr>tokens = [\<lparr>cmd = RETURN, argc = (if arg_zero H = ARG_NONE then - 1 else 0),
                       argv = []\<rparr>],
           failure = False, erange = (if arg_zero H = ARG_NONE then False else e),
           stderr = []\<rparr>"
proof -
  have "strtok_all ''return'' = ''return'' # []" by code_simp
  from return_line[OF this, of H "scan_init e"] show ?thesis
    by (simp add: append_token_def malloc_argv_def scan_init_def)
qed

text \<open>
  C10: the test \<^verbatim>\<open>errno == ERANGE\<close> sees an \<^verbatim>\<open>ERANGE\<close> left by an earlier line: after
  a number that overflows, the number 5 of the next line is reported as one that
  cannot be read, although on its own the same line is accepted.
\<close>

theorem stale_errno_rejects_number:
  "scan_stream header_bits False
     (file_of [''push constant 99999999999999999999'', ''push constant 5'']) =
     Some (Exit1, [NumberParse ''99999999999999999999'', SegmentRange 9223372036854775807,
                   NumberParse ''5'']) \<and>
   scan_stream header_bits False (file_of [''push constant 5'']) =
     Some (Returned [\<lparr>cmd = PUSH, argc = 2, argv = [Some (Mem CONSTANT), Some (Num 5)]\<rparr>], [])"
  by code_simp

text \<open>
  A \<^verbatim>\<open>return\<close> line between the two clears the \<^verbatim>\<open>ERANGE\<close> again, through the
  \<^verbatim>\<open>malloc\<close> that fails.
\<close>

lemma return_line_clears_errno:
  "scan_stream header_bits False
     (file_of [''push constant 99999999999999999999'', ''return'', ''push constant 5'']) =
     Some (Exit1, [NumberParse ''99999999999999999999'', SegmentRange 9223372036854775807])"
  by code_simp

section \<open>Unknown commands\<close>

definition unknown_line :: "string \<Rightarrow> bool" where
  "unknown_line l = (case strtok_all l of [] \<Rightarrow> False | c # ws \<Rightarrow> cmdtype c = NONE)"

definition line_tokens :: "header \<Rightarrow> string \<Rightarrow> Token list" where
  "line_tokens H l = (case scan_line H (scan_init False) l of Fault r \<Rightarrow> [] | Cont r \<Rightarrow> tokens r)"

definition line_stderr :: "header \<Rightarrow> string \<Rightarrow> diag list" where
  "line_stderr H l = (case scan_line H (scan_init False) l of Fault r \<Rightarrow> [] | Cont r \<Rightarrow> stderr r)"

definition clean_line :: "header \<Rightarrow> string \<Rightarrow> bool" where
  "clean_line H l =
     (case scan_line H (scan_init False) l of Fault r \<Rightarrow> False | Cont r \<Rightarrow> stderr r = [])"

lemma unknown_line_run:
  assumes "unknown_line l"
  shows "\<exists>c ws. strtok_all l = c # ws \<and>
           scan_line H (scan_init False) l = Cont (report (UnknownCommand c) (scan_init False))"
  using assms by (auto simp: unknown_line_def scan_line_def split: list.splits)

lemma clean_line_run:
  assumes "clean_line H l"
  shows "\<exists>r. scan_line H (scan_init False) l = Cont r \<and> stderr r = [] \<and> \<not> failure r \<and> \<not> erange r"
proof -
  from assms obtain r where r: "scan_line H (scan_init False) l = Cont r" "stderr r = []"
    by (auto simp: clean_line_def split: step.splits)
  have "flagged r" by (rule scan_line_invariants(1)[OF r(1) scan_init_invariants(1)])
  with r(2) have f: "\<not> failure r" by (simp add: flagged_def)
  from scan_line_invariants(2)[OF r(1) scan_init_invariants(2)] f have "\<not> erange r"
    by (simp add: errno_flagged_def)
  with r f show ?thesis by blast
qed

lemma scan_lines_clean:
  assumes "\<forall>l \<in> set ls. unknown_line l \<or> clean_line H l"
    and "\<not> failure st" and "\<not> erange st"
  shows "scan_lines H st ls =
           Cont \<lparr>tokens = tokens st @ concat (map (line_tokens H) ls), failure = False,
                 erange = False, stderr = stderr st @ concat (map (line_stderr H) ls)\<rparr>"
  using assms
proof (induction ls arbitrary: st)
  case Nil
  then show ?case by simp
next
  case (Cons l ls)
  from Cons.prems(1) have "unknown_line l \<or> clean_line H l" by simp
  then obtain r where r: "scan_line H (scan_init False) l = Cont r" "\<not> failure r" "\<not> erange r"
    using unknown_line_run[of l H] clean_line_run[of H l]
    by (auto simp: report_def scan_init_def)
  from r(1) have lt: "line_tokens H l = tokens r" "line_stderr H l = stderr r"
    by (simp_all add: line_tokens_def line_stderr_def)
  have "scan_line H st l = Cont (merge st r)"
    using scan_line_frame[of H st l] Cons.prems(3) r(1) by simp
  moreover have "\<not> failure (merge st r)" "\<not> erange (merge st r)"
    using r Cons.prems(2) by (simp_all add: merge_def)
  moreover from Cons.prems(1) have "\<forall>l \<in> set ls. unknown_line l \<or> clean_line H l" by simp
  ultimately show ?case
    using Cons.IH[of "merge st r"] Cons.prems(2) by (simp add: merge_def lt)
qed

lemma unknown_line_facts:
  assumes "unknown_line l"
  shows "line_tokens H l = [] \<and> (\<exists>c ws. strtok_all l = c # ws \<and> line_stderr H l = [UnknownCommand c])"
  using unknown_line_run[OF assms, of H]
  by (auto simp: line_tokens_def line_stderr_def report_def scan_init_def)

lemma clean_line_facts:
  assumes "clean_line H l"
  shows "\<not> unknown_line l \<and> line_stderr H l = [] \<and>
         (\<exists>c ws r ac av. strtok_all l = c # ws \<and>
            scan_args H (cmdtype c) c ws (scan_init False) = (r, ac, av) \<and>
            line_tokens H l = [\<lparr>cmd = cmdtype c, argc = ac, argv = av\<rparr>])"
proof -
  from clean_line_run[OF assms] obtain x where
    x: "scan_line H (scan_init False) l = Cont x" "stderr x = []" "\<not> failure x" by blast
  show ?thesis
  proof (cases rule: scan_line_cases[of l H "scan_init False"])
    case 1
    with x show ?thesis by simp
  next
    case (2 c ws)
    with x have "stderr x = [UnknownCommand c]" by (auto simp: report_def scan_init_def)
    with x show ?thesis by simp
  next
    case (3 c ws r ac av)
    from scan_args_grows[OF 3(3)] have t: "tokens r = []"
      by (simp add: grows_def scan_init_def)
    from 3(4) x have "\<not> failure r" by (auto simp: append_token_sel)
    with 3(4) x t have "tokens x = [\<lparr>cmd = cmdtype c, argc = ac, argv = av\<rparr>]"
      by (auto simp: append_token_def)
    with x 3(1,2,3) show ?thesis
      by (auto simp: line_tokens_def line_stderr_def unknown_line_def)
  qed
qed

text \<open>
  A stream that the reader gets through and whose lines are each either a line with an
  unknown command word or a line that, run on its own, writes no message.
  \<^verbatim>\<open>scan_stream\<close> returns the list, which holds the node of each line of the second
  kind, in order; \<^verbatim>\<open>stderr\<close> holds one unknown-command message for each line of the
  first kind and nothing else. (\<^verbatim>\<open>errno\<close> does not hold \<^verbatim>\<open>ERANGE\<close> at the call.)
\<close>

lemma unknown_commands_only:
  assumes "all_lines s = Some ls"
    and "\<forall>l \<in> set ls. unknown_line l \<or> clean_line H l"
  shows "scan_stream H False s =
           Some (Returned (concat (map (line_tokens H) ls)), concat (map (line_stderr H) ls)) \<and>
         (\<forall>l \<in> set ls.
            if unknown_line l
            then line_tokens H l = [] \<and>
                 (\<exists>c ws. strtok_all l = c # ws \<and> line_stderr H l = [UnknownCommand c])
            else line_stderr H l = [] \<and>
                 (\<exists>c ws r ac av. strtok_all l = c # ws \<and>
                    scan_args H (cmdtype c) c ws (scan_init False) = (r, ac, av) \<and>
                    line_tokens H l = [\<lparr>cmd = cmdtype c, argc = ac, argv = av\<rparr>]))"
proof -
  have "scan_lines H (scan_init False) ls =
          Cont \<lparr>tokens = concat (map (line_tokens H) ls), failure = False,
                erange = False, stderr = concat (map (line_stderr H) ls)\<rparr>"
    using scan_lines_clean[OF assms(2), of "scan_init False"] by (simp add: scan_init_def)
  then have a: "scan_stream H False s =
           Some (Returned (concat (map (line_tokens H) ls)), concat (map (line_stderr H) ls))"
    by (simp add: scan_stream_def scan_loop_lines[OF assms(1)] finish_def)
  have b: "if unknown_line l
            then line_tokens H l = [] \<and>
                 (\<exists>c ws. strtok_all l = c # ws \<and> line_stderr H l = [UnknownCommand c])
            else line_stderr H l = [] \<and>
                 (\<exists>c ws r ac av. strtok_all l = c # ws \<and>
                    scan_args H (cmdtype c) c ws (scan_init False) = (r, ac, av) \<and>
                    line_tokens H l = [\<lparr>cmd = cmdtype c, argc = ac, argv = av\<rparr>])"
    if "l \<in> set ls" for l
  proof (cases "unknown_line l")
    case True
    with unknown_line_facts[OF True, of H] show ?thesis by simp
  next
    case False
    with assms(2) that have "clean_line H l" by blast
    from clean_line_facts[OF this] False show ?thesis by simp
  qed
  from a b show ?thesis by blast
qed

lemma unknown_commands_only_example:
  "scan_stream header_bits False (file_of [''bar'', ''push temp 7'', ''foo 1 2'', ''label L'']) =
     Some (Returned [\<lparr>cmd = PUSH, argc = 2, argv = [Some (Mem TEMP), Some (Num 7)]\<rparr>,
                     \<lparr>cmd = LABEL, argc = 1, argv = [Some (Name 1 [CHR ''L'', CHR 0x00])]\<rparr>],
           [UnknownCommand ''bar'', UnknownCommand ''foo''])"
  by code_simp

text \<open>
  C4: the stream holds a line with an unknown command word and then a comment that
  runs into the end of the stream; it has no other invalid line. \<^verbatim>\<open>scan_stream\<close> does
  not return the list: it never returns, since the reader does not come back from the
  comment.
\<close>

theorem scan_stream_hangs_behind_unknown_command:
  "scan_stream H e \<lparr>buf = ''foo'' @ [CHR 0x0A] @ ''// c'', eof = False\<rparr> = None"
proof -
  have n: "nextline \<lparr>buf = ''foo'' @ [CHR 0x0A] @ ''// c'', eof = False\<rparr> =
             Some (Some ''foo'', \<lparr>buf = ''// c'', eof = False\<rparr>)"
    by code_simp
  have "strtok_all ''foo'' \<noteq> []" by code_simp
  from scan_loop_hangs_behind_line[OF n this] show ?thesis
    by (simp add: scan_stream_def)
qed

section \<open>Releasing the list\<close>

text \<open>
  The list as \<^verbatim>\<open>free_token_list\<close> sees it: blocks of memory at addresses. A node holds
  the pointers \<^verbatim>\<open>argv\<close> and \<^verbatim>\<open>next\<close> (\<open>None\<close> is \<^verbatim>\<open>NULL\<close>); an argument array holds
  cells, of which a \<^verbatim>\<open>name\<close> member points to the block of the string that
  \<^verbatim>\<open>scan_stream\<close> allocated for it. The contents stay as they are; what \<^verbatim>\<open>free\<close> changes
  is the list of the blocks that are allocated. \<^verbatim>\<open>free(NULL)\<close> does nothing; freeing or
  reading a block that is not allocated is an error (\<open>None\<close>).
\<close>

datatype cell = Scalar | NamePtr nat

record TokenNode =
  node_argv :: "nat option"
  node_next :: "nat option"

record store =
  node_at :: "nat \<rightharpoonup> TokenNode"
  array_at :: "nat \<rightharpoonup> cell list"

definition free :: "nat option \<Rightarrow> nat list \<Rightarrow> nat list option" where
  "free p live = (case p of
                    None \<Rightarrow> Some live
                  | Some a \<Rightarrow> if a \<in> set live then Some (removeAll a live) else None)"

lemma free_length: "free p live = Some live' \<Longrightarrow> length live' \<le> length live"
  by (auto simp: free_def split: option.splits if_splits
           intro: order_trans[OF length_removeAll_less_eq])

lemma free_Some_length: "free (Some a) live = Some live' \<Longrightarrow> length live' < length live"
  by (auto simp: free_def split: if_splits intro: length_removeAll_less)

function free_token_list :: "store \<Rightarrow> nat option \<Rightarrow> nat list \<Rightarrow> nat list option" where
  "free_token_list M tok live =
     (case tok of
        None \<Rightarrow> Some live
      | Some p \<Rightarrow>
          if p \<notin> set live then None
          else (case node_at M p of
                  None \<Rightarrow> None
                | Some nd \<Rightarrow>
                    (case free (node_argv nd) live of
                       None \<Rightarrow> None
                     | Some live1 \<Rightarrow>
                         (case free (Some p) live1 of
                            None \<Rightarrow> None
                          | Some live2 \<Rightarrow>
                              (case node_next nd of
                                 None \<Rightarrow> Some live2
                               | Some n \<Rightarrow> free_token_list M (Some n) live2)))))"
  by pat_completeness auto
termination
proof (relation "measure (\<lambda>(M, tok, live). length live)", goal_cases)
  case 1
  show ?case by simp
next
  case (2 M tok live p nd live1 live2 n)
  from free_length[OF 2(4)] free_Some_length[OF 2(5)] show ?case by simp
qed

declare free_token_list.simps [simp del]


text \<open>
  \<open>token_list M p qs\<close>: the \<^verbatim>\<open>next\<close> pointers lead from \<open>p\<close> through the nodes at the
  addresses \<open>qs\<close> to \<^verbatim>\<open>NULL\<close>. The argument arrays of these nodes, and the strings
  that the cells of an array point to.
\<close>

fun token_list :: "store \<Rightarrow> nat option \<Rightarrow> nat list \<Rightarrow> bool" where
  "token_list M p [] = (p = None)"
| "token_list M p (q # qs) =
     (p = Some q \<and> (case node_at M q of
                       None \<Rightarrow> False
                     | Some nd \<Rightarrow> token_list M (node_next nd) qs))"

definition argv_of :: "store \<Rightarrow> nat \<Rightarrow> nat list" where
  "argv_of M q = (case node_at M q of
                    None \<Rightarrow> []
                  | Some nd \<Rightarrow> (case node_argv nd of None \<Rightarrow> [] | Some a \<Rightarrow> [a]))"

definition argv_blocks :: "store \<Rightarrow> nat list \<Rightarrow> nat list" where
  "argv_blocks M qs = concat (map (argv_of M) qs)"

definition names_of :: "store \<Rightarrow> nat \<Rightarrow> nat list" where
  "names_of M a = (case array_at M a of
                     None \<Rightarrow> []
                   | Some cs \<Rightarrow> concat (map (\<lambda>c. case c of NamePtr s \<Rightarrow> [s] | Scalar \<Rightarrow> []) cs))"

definition name_blocks :: "store \<Rightarrow> nat list \<Rightarrow> nat list" where
  "name_blocks M qs = concat (map (names_of M) (argv_blocks M qs))"

lemma free_token_list_frees:
  assumes "token_list M p qs"
    and "distinct (qs @ argv_blocks M qs)"
    and "set (qs @ argv_blocks M qs) \<subseteq> set live"
  shows "\<exists>live'. free_token_list M p live = Some live' \<and>
                  set live' = set live - set (qs @ argv_blocks M qs)"
  using assms
proof (induction qs arbitrary: p live)
  case Nil
  then show ?case by (simp add: free_token_list.simps argv_blocks_def)
next
  case (Cons q qs)
  from Cons.prems(1) obtain nd where p: "p = Some q" and nd: "node_at M q = Some nd"
    and rest: "token_list M (node_next nd) qs"
    by (auto split: option.splits)
  have ab: "argv_blocks M (q # qs) = argv_of M q @ argv_blocks M qs"
    by (simp add: argv_blocks_def)
  have av: "argv_of M q = (case node_argv nd of None \<Rightarrow> [] | Some a \<Rightarrow> [a])"
    by (simp add: argv_of_def nd)
  from Cons.prems(3) have ql: "q \<in> set live" by simp
  define live1 where "live1 = (case node_argv nd of None \<Rightarrow> live | Some a \<Rightarrow> removeAll a live)"
  have f1: "free (node_argv nd) live = Some live1"
    using Cons.prems(3) by (auto simp: free_def live1_def ab av split: option.splits)
  have s1: "set live1 = set live - set (argv_of M q)"
    by (auto simp: live1_def av split: option.splits)
  from Cons.prems(2) have qa: "q \<notin> set (argv_of M q)" by (auto simp: ab)
  with ql s1 have q1: "q \<in> set live1" by simp
  define live2 where "live2 = removeAll q live1"
  have f2: "free (Some q) live1 = Some live2"
    using q1 by (simp add: free_def live2_def)
  have s2: "set live2 = set live - set (argv_of M q) - {q}"
    by (auto simp: live2_def s1)
  from Cons.prems(2) have d: "distinct (qs @ argv_blocks M qs)"
    by (auto simp: ab)
  from Cons.prems(2,3) have sub: "set (qs @ argv_blocks M qs) \<subseteq> set live2"
    by (auto simp: s2 ab)
  from Cons.IH[OF rest d sub] obtain live' where
    r: "free_token_list M (node_next nd) live2 = Some live'"
    and sr: "set live' = set live2 - set (qs @ argv_blocks M qs)"
    by blast
  have "free_token_list M p live = free_token_list M (node_next nd) live2"
    using ql
    by (simp add: free_token_list.simps[of M "Some q" live] p nd f1 f2
                  free_token_list.simps[of M None live2] split: option.splits)
  with r sr s2 show ?case by (auto simp: ab)
qed

lemma free_token_list_keeps_names:
  assumes "token_list M p qs"
    and "distinct (qs @ argv_blocks M qs @ name_blocks M qs)"
    and "set (qs @ argv_blocks M qs @ name_blocks M qs) \<subseteq> set live"
  shows "\<exists>live'. free_token_list M p live = Some live' \<and>
                  set live' \<inter> set (qs @ argv_blocks M qs) = {} \<and>
                  set (name_blocks M qs) \<subseteq> set live'"
proof -
  from assms(2) have d: "distinct (qs @ argv_blocks M qs)" by auto
  from assms(3) have s: "set (qs @ argv_blocks M qs) \<subseteq> set live" by simp
  from free_token_list_frees[OF assms(1) d s] obtain live' where
    l: "free_token_list M p live = Some live'"
       "set live' = set live - set (qs @ argv_blocks M qs)" by blast
  from assms(2) have "set (name_blocks M qs) \<inter> set (qs @ argv_blocks M qs) = {}"
    by auto
  with assms(3) l(2) have "set (name_blocks M qs) \<subseteq> set live'" by auto
  with l show ?thesis by auto
qed

text \<open>
  C9: a list of one node, \<^verbatim>\<open>label L\<close>: the node at address 1, its argument array at 2,
  the string of the name at 3. After \<^verbatim>\<open>free_token_list\<close> the node and the array are
  released and the string is still allocated: nothing in \<^verbatim>\<open>free_token_list\<close> frees a
  name.
\<close>

theorem free_token_list_leaks_name:
  "free_token_list
     \<lparr>node_at = [1 \<mapsto> \<lparr>node_argv = Some 2, node_next = None\<rparr>],
      array_at = [2 \<mapsto> [NamePtr 3]]\<rparr>
     (Some 1) [1, 2, 3] = Some [3]"
  by (simp add: free_token_list.simps free_def)

text \<open>
  \<^verbatim>\<open>free_token_list\<close> calls itself once for every node behind the first, as the last
  thing it does. \<open>call_depth\<close> follows the same calls and counts how many of them are
  open when the deepest one runs: where the caller's frame is kept during the call, the
  stack holds that many frames.
\<close>

function call_depth :: "store \<Rightarrow> nat option \<Rightarrow> nat list \<Rightarrow> nat" where
  "call_depth M tok live =
     (case tok of
        None \<Rightarrow> 1
      | Some p \<Rightarrow>
          if p \<notin> set live then 1
          else (case node_at M p of
                  None \<Rightarrow> 1
                | Some nd \<Rightarrow>
                    (case free (node_argv nd) live of
                       None \<Rightarrow> 1
                     | Some live1 \<Rightarrow>
                         (case free (Some p) live1 of
                            None \<Rightarrow> 1
                          | Some live2 \<Rightarrow>
                              (case node_next nd of
                                 None \<Rightarrow> 1
                               | Some n \<Rightarrow> 1 + call_depth M (Some n) live2)))))"
  by pat_completeness auto
termination
proof (relation "measure (\<lambda>(M, tok, live). length live)", goal_cases)
  case 1
  show ?case by simp
next
  case (2 M tok live p nd live1 live2 n)
  from free_length[OF 2(4)] free_Some_length[OF 2(5)] show ?case by simp
qed

declare call_depth.simps [simp del]

lemma call_depth_length:
  assumes "token_list M p qs"
    and "distinct (qs @ argv_blocks M qs)"
    and "set (qs @ argv_blocks M qs) \<subseteq> set live"
  shows "call_depth M p live = max 1 (length qs)"
  using assms
proof (induction qs arbitrary: p live)
  case Nil
  then show ?case by (simp add: call_depth.simps)
next
  case (Cons q qs)
  from Cons.prems(1) obtain nd where p: "p = Some q" and nd: "node_at M q = Some nd"
    and rest: "token_list M (node_next nd) qs"
    by (auto split: option.splits)
  have ab: "argv_blocks M (q # qs) = argv_of M q @ argv_blocks M qs"
    by (simp add: argv_blocks_def)
  have av: "argv_of M q = (case node_argv nd of None \<Rightarrow> [] | Some a \<Rightarrow> [a])"
    by (simp add: argv_of_def nd)
  from Cons.prems(3) have ql: "q \<in> set live" by simp
  define live1 where "live1 = (case node_argv nd of None \<Rightarrow> live | Some a \<Rightarrow> removeAll a live)"
  have f1: "free (node_argv nd) live = Some live1"
    using Cons.prems(3) by (auto simp: free_def live1_def ab av split: option.splits)
  have s1: "set live1 = set live - set (argv_of M q)"
    by (auto simp: live1_def av split: option.splits)
  from Cons.prems(2) have qa: "q \<notin> set (argv_of M q)" by (auto simp: ab)
  with ql s1 have q1: "q \<in> set live1" by simp
  define live2 where "live2 = removeAll q live1"
  have f2: "free (Some q) live1 = Some live2"
    using q1 by (simp add: free_def live2_def)
  have s2: "set live2 = set live - set (argv_of M q) - {q}"
    by (auto simp: live2_def s1)
  from Cons.prems(2) have d: "distinct (qs @ argv_blocks M qs)"
    by (auto simp: ab)
  from Cons.prems(2,3) have sub: "set (qs @ argv_blocks M qs) \<subseteq> set live2"
    by (auto simp: s2 ab)
  show ?case
  proof (cases qs)
    case Nil
    with rest have "node_next nd = None" by simp
    with ql Nil show ?thesis
      by (simp add: call_depth.simps[of M "Some q" live] p nd f1 f2)
  next
    case (Cons q' qs')
    with rest obtain n where n: "node_next nd = Some n" by auto
    from Cons.IH[OF rest d sub] Cons have "call_depth M (node_next nd) live2 = length qs"
      by simp
    with ql n show ?thesis
      by (simp add: call_depth.simps[of M "Some q" live] p nd f1 f2)
  qed
qed

section \<open>Streams on which the reader returns\<close>

text \<open>
  On a stream that is empty or ends with a newline no comment runs into the end of
  the stream: the reader returns at every call, and \<^verbatim>\<open>scan_stream\<close> comes to its end.
\<close>

definition ends_nl :: "stream \<Rightarrow> bool" where
  "ends_nl s = (buf s = [] \<or> last (buf s) = CHR 0x0A)"

lemma skip_comment_returns:
  "buf s \<noteq> [] \<Longrightarrow> last (buf s) = CHR 0x0A \<Longrightarrow> \<exists>s'. skip_comment s = Some s' \<and> ends_nl s'"
proof (induction "buf s" arbitrary: s)
  case Nil
  then show ?case by simp
next
  case (Cons c cs)
  from Cons(2)[symmetric] have f: "fgetc s = (Some c, s\<lparr>buf := cs\<rparr>)" by (simp add: fgetc_def)
  show ?case
  proof (cases "c = CHR 0x0A")
    case True
    with f have "skip_comment s = Some (s\<lparr>buf := cs\<rparr>)"
      by (subst skip_comment.simps) simp
    moreover from Cons(2)[symmetric] Cons.prems have "ends_nl (s\<lparr>buf := cs\<rparr>)"
      by (auto simp: ends_nl_def split: if_splits)
    ultimately show ?thesis by blast
  next
    case False
    with Cons(2)[symmetric] Cons.prems have ne: "cs \<noteq> []" and l: "last cs = CHR 0x0A"
      by (auto split: if_splits)
    from Cons(1)[of "s\<lparr>buf := cs\<rparr>"] ne l obtain s' where
      "skip_comment (s\<lparr>buf := cs\<rparr>) = Some s'" "ends_nl s'" by auto
    moreover from f False have "skip_comment s = skip_comment (s\<lparr>buf := cs\<rparr>)"
      by (subst skip_comment.simps) simp
    ultimately show ?thesis by auto
  qed
qed

lemma skip_space_ends_nl: "ends_nl s \<Longrightarrow> ends_nl (skip_space s)"
proof (induction s rule: skip_space.induct)
  case (1 s)
  show ?case
  proof (cases "buf s")
    case Nil
    then show ?thesis
      by (subst skip_space.simps) (simp add: fgetc_def ungetc_def isspace_def ends_nl_def)
  next
    case (Cons c cs)
    then have f: "fgetc s = (Some c, s\<lparr>buf := cs\<rparr>)" by (simp add: fgetc_def)
    from "1.prems" Cons have e: "ends_nl (s\<lparr>buf := cs\<rparr>)"
      by (auto simp: ends_nl_def split: if_splits)
    show ?thesis
    proof (cases "isspace (Some c)")
      case True
      with f have "skip_space s = skip_space (s\<lparr>buf := cs\<rparr>)"
        by (subst skip_space.simps) simp
      with "1.IH"[OF f[symmetric] True e] show ?thesis by simp
    next
      case False
      with f have "skip_space s = ungetc (Some c) (s\<lparr>buf := cs\<rparr>)"
        by (subst skip_space.simps) simp
      with "1.prems" Cons show ?thesis by (simp add: ungetc_def ends_nl_def)
    qed
  qed
qed

lemma read_line_returns:
  "ends_nl s \<Longrightarrow> \<exists>acc' s'. read_line s acc = Some (acc', s') \<and> ends_nl s'"
proof (induction s acc rule: read_line.induct)
  case (1 s acc)
  show ?case
  proof (cases "buf s")
    case Nil
    then show ?thesis
      by (subst read_line.simps) (simp add: fgetc_def ends_nl_def)
  next
    case (Cons c cs)
    note sc = Cons
    have f1: "fgetc s = (Some c, s\<lparr>buf := cs\<rparr>)" by (simp add: fgetc_def Cons)
    from "1.prems" sc have e1: "ends_nl (s\<lparr>buf := cs\<rparr>)"
      by (auto simp: ends_nl_def split: if_splits)
    show ?thesis
    proof (cases "c = CHR 0x0A")
      case True
      with f1 e1 show ?thesis by (subst read_line.simps) simp
    next
      case nl: False
      show ?thesis
      proof (cases "c = CHR ''/''")
        case False
        with f1 nl have "read_line s acc = read_line (s\<lparr>buf := cs\<rparr>) (acc @ [c])"
          by (subst read_line.simps) simp
        with "1.IH"(2)[OF f1[symmetric] refl nl False e1] show ?thesis by simp
      next
        case True
        obtain n s2 where f2: "fgetc (s\<lparr>buf := cs\<rparr>) = (n, s2)" by force
        show ?thesis
        proof (cases "n = Some (CHR ''/'')")
          case sl: True
          with f2 obtain cs2 where cs: "cs = CHR ''/'' # cs2" and s2: "s2 = s\<lparr>buf := cs2\<rparr>"
            by (auto simp: fgetc_def split: list.splits)
          from "1.prems" sc cs have "cs2 \<noteq> []" "last cs2 = CHR 0x0A"
            by (auto simp: ends_nl_def split: if_splits)
          with skip_comment_returns[of s2] s2 obtain s3 where
            "skip_comment s2 = Some s3" "ends_nl s3" by auto
          with f1 f2 nl True sl show ?thesis
            by (subst read_line.simps) simp
        next
          case False
          with f1 f2 nl True have r: "read_line s acc = read_line (ungetc n s2) (acc @ [c])"
            by (subst read_line.simps) simp
          have "ends_nl (ungetc n s2)" using f2 e1
            by (auto simp: fgetc_def ungetc_def ends_nl_def split: list.splits)
          with "1.IH"(1)[OF f1[symmetric] refl nl True f2[symmetric] False] r show ?thesis
            by simp
        qed
      qed
    qed
  qed
qed

lemma nextline_returns:
  "ends_nl s \<Longrightarrow> \<exists>r s'. nextline s = Some (r, s') \<and> ends_nl s'"
proof (induction s rule: nextline.induct)
  case (1 s)
  show ?case
  proof (cases "feof s")
    case True
    with "1.prems" show ?thesis by (subst nextline.simps) simp
  next
    case ne: False
    from read_line_returns[OF skip_space_ends_nl[OF "1.prems"], of "[]"] obtain a s1 where
      rl: "read_line (skip_space s) [] = Some (a, s1)" and e: "ends_nl s1" by blast
    show ?thesis
    proof (cases "a = []")
      case True
      with ne rl have "nextline s = nextline s1" by (subst nextline.simps) simp
      with "1.IH"[OF ne rl refl _ e] True show ?thesis by simp
    next
      case False
      with ne rl have "nextline s = Some (Some a, s1)" by (subst nextline.simps) simp
      with e show ?thesis by simp
    qed
  qed
qed

lemma all_lines_returns: "ends_nl s \<Longrightarrow> \<exists>ls. all_lines s = Some ls"
proof (induction s rule: all_lines.induct)
  case (1 s)
  from nextline_returns[OF "1.prems"] obtain r s' where
    n: "nextline s = Some (r, s')" and e: "ends_nl s'" by blast
  show ?case
  proof (cases r)
    case None
    with n show ?thesis by (simp add: all_lines.simps[of s])
  next
    case (Some l)
    with "1.IH"[OF n[unfolded Some] refl refl e] n show ?thesis
      by (auto simp: all_lines.simps[of s])
  qed
qed

lemma file_of_ends_nl: "ends_nl (file_of ls)"
  by (induction ls rule: rev_induct) (simp_all add: ends_nl_def file_of_def)


lemma scan_stream_returns:
  assumes "ends_nl s" and "CHR 0x00 \<notin> set (buf s)"
  shows "\<exists>st. scan_stream H e s = Some (finish (Cont st))"
proof -
  from all_lines_returns[OF assms(1)] obtain ls where ls: "all_lines s = Some ls" by blast
  from scan_lines_no_fault[OF text_lines_have_command_word[OF ls assms(2)]] obtain st
    where "scan_lines H (scan_init e) ls = Cont st" by blast
  then have "scan_stream H e s = Some (finish (Cont st))"
    by (simp add: scan_stream_def scan_loop_lines[OF ls])
  then show ?thesis by blast
qed

end
